theory Spec2Isabelle
  imports Main "HOL-Library.Char_ord" "HOL-Library.List_Lexorder"
begin

section \<open>The resource planner of \<^verbatim>\<open>apply_planner.py\<close>\<close>

text \<open>
  The planner receives two dictionaries (current state and target), each from a resource
  name to a resource with the attributes \<^verbatim>\<open>deps\<close> and \<^verbatim>\<open>tools\<close>, and a set of changed
  names. Python dictionaries keep their insertion order and the code iterates over them,
  so a dictionary is an association list (whose keys are distinct for a real dictionary).
  Names are Python strings; they are byte strings here (UTF-8), compared
  lexicographically, which is the order of \<^verbatim>\<open>sorted\<close> on strings.
\<close>

subsection \<open>Data model\<close>

record resource =
  name :: string
  deps :: "string list"
  tools :: "string list"

type_synonym resources = "(string \<times> resource) list"

datatype error = ValueError | AssertionError | KeyError | NetworkXError | RecursionError

text \<open>
  The part of \<^verbatim>\<open>networkx.DiGraph\<close> that the planner uses: nodes and edges in insertion
  order, each stored once. \<^verbatim>\<open>predecessors(n)\<close> iterates over the sources of the edges
  into \<^verbatim>\<open>n\<close> in the order in which these edges were added, and raises
  \<^verbatim>\<open>NetworkXError\<close> for a name that is not a node.
\<close>

record digraph =
  g_nodes :: "string list"
  g_edges :: "(string \<times> string) list"

definition DiGraph :: digraph where
  "DiGraph = \<lparr>g_nodes = [], g_edges = []\<rparr>"

definition add_node :: "digraph \<Rightarrow> string \<Rightarrow> digraph" where
  "add_node g n = (if n \<in> set (g_nodes g) then g else g\<lparr>g_nodes := g_nodes g @ [n]\<rparr>)"

definition add_edge :: "digraph \<Rightarrow> string \<times> string \<Rightarrow> digraph" where
  "add_edge g e =
     (let g1 = add_node (add_node g (fst e)) (snd e)
      in if e \<in> set (g_edges g1) then g1 else g1\<lparr>g_edges := g_edges g1 @ [e]\<rparr>)"

definition add_edges_from :: "digraph \<Rightarrow> (string \<times> string) list \<Rightarrow> digraph" where
  "add_edges_from g es = foldl add_edge g es"

definition has_node :: "digraph \<Rightarrow> string \<Rightarrow> bool" where
  "has_node g n = (n \<in> set (g_nodes g))"

definition predecessors :: "digraph \<Rightarrow> string \<Rightarrow> error + string list" where
  "predecessors g n =
     (if has_node g n then Inr (map fst (filter (\<lambda>e. snd e = n) (g_edges g)))
      else Inl NetworkXError)"

definition compose :: "digraph \<Rightarrow> digraph \<Rightarrow> digraph" where
  "compose g h =
     \<lparr>g_nodes = g_nodes g @ filter (\<lambda>n. n \<notin> set (g_nodes g)) (g_nodes h),
      g_edges = g_edges g @ filter (\<lambda>e. e \<notin> set (g_edges g)) (g_edges h)\<rparr>"

text \<open>
  \<^verbatim>\<open>networkx.find_cycle\<close> is library code: it returns a non-empty list of edges that form
  a directed cycle (a self-loop is one) when the graph has one, and raises
  \<^verbatim>\<open>NetworkXNoCycle\<close> otherwise. The planner only tests whether a cycle was found.
\<close>

definition has_cycle :: "digraph \<Rightarrow> bool" where
  "has_cycle g = (\<exists>x \<in> set (g_nodes g). (x, x) \<in> (set (g_edges g))\<^sup>+)"

record planner =
  state :: resources
  target :: resources
  changed :: "string set"
  delete_deps_graph :: digraph
  tools_deps_graph :: digraph
  applied :: "string set"

subsection \<open>Construction of the planner\<close>

definition generate_delete_deps_graph :: "resources \<Rightarrow> digraph" where
  "generate_delete_deps_graph st =
     foldl (\<lambda>g (nm, r). add_edges_from (add_node g nm) (map (\<lambda>d. (nm, d)) (deps r))) DiGraph st"

definition generate_tools_deps_graph :: "resources \<Rightarrow> digraph" where
  "generate_tools_deps_graph st =
     foldl (\<lambda>g (nm, r). add_edges_from g (map (\<lambda>d. (nm, d)) (tools r))) DiGraph st"

text \<open>\<^verbatim>\<open>changed or set()\<close> is the changed set itself: an empty set is replaced by an empty set.\<close>

definition ApplyPlanner :: "resources \<Rightarrow> resources \<Rightarrow> string set \<Rightarrow> planner" where
  "ApplyPlanner st tg ch =
     \<lparr>state = st, target = tg, changed = ch,
      delete_deps_graph = generate_delete_deps_graph st,
      tools_deps_graph = generate_tools_deps_graph st,
      applied = {}\<rparr>"

subsection \<open>Operations of a plan\<close>

text \<open>The plan is a list of strings: \<^verbatim>\<open>"+" + name\<close> creates, \<^verbatim>\<open>"-" + name\<close> deletes.\<close>

definition Create :: "string \<Rightarrow> string" where
  "Create nm = ''+'' @ nm"

definition Delete :: "string \<Rightarrow> string" where
  "Delete nm = ''-'' @ nm"

subsection \<open>The recursive planner\<close>

text \<open>
  The three methods mutate \<^verbatim>\<open>self._applied\<close> and the list \<^verbatim>\<open>plan\<close>; both are passed
  and returned here. An exception ends the call with the error and the set
  \<^verbatim>\<open>_applied\<close> as it stands (the list is local to \<^verbatim>\<open>plan\<close> and lost). The first
  argument is the number of nested calls that the interpreter still allows: Python
  raises \<^verbatim>\<open>RecursionError\<close> when the recursion goes deeper, and a recursion that would
  never end fails this way for every limit.
\<close>

type_synonym pstate = "string set \<times> string list"
type_synonym outcome = "(error \<times> string set) + pstate"

fun for_each :: "('a \<Rightarrow> 's \<Rightarrow> 'e + 's) \<Rightarrow> 'a list \<Rightarrow> 's \<Rightarrow> 'e + 's" where
  "for_each body [] s = Inr s"
| "for_each body (x # xs) s =
     (case body x s of Inl e \<Rightarrow> Inl e | Inr s' \<Rightarrow> for_each body xs s')"

definition is_changed :: "planner \<Rightarrow> string \<Rightarrow> bool" where
  "is_changed self nm = (nm \<in> changed self)"

definition contains :: "resources \<Rightarrow> string \<Rightarrow> bool" where
  "contains d nm = (nm \<in> set (map fst d))"

fun apply_resource :: "nat \<Rightarrow> planner \<Rightarrow> string \<Rightarrow> pstate \<Rightarrow> outcome"
  and plan_create :: "nat \<Rightarrow> planner \<Rightarrow> string \<Rightarrow> pstate \<Rightarrow> outcome"
  and plan_delete :: "nat \<Rightarrow> planner \<Rightarrow> string \<Rightarrow> pstate \<Rightarrow> outcome"
where
  "apply_resource 0 self nm (A, p) = Inl (RecursionError, A)"
| "apply_resource (Suc k) self nm (A, p) =
     (if nm \<in> A then Inr (A, p)
      else if \<not> contains (target self) nm then plan_delete k self nm (insert nm A, p)
      else if is_changed self nm then
        (case plan_delete k self nm (insert nm A, p) of
           Inl e \<Rightarrow> Inl e
         | Inr s \<Rightarrow> plan_create k self nm s)
      else if \<not> contains (state self) nm then plan_create k self nm (insert nm A, p)
      else Inr (insert nm A, p))"
| "plan_create 0 self nm (A, p) = Inl (RecursionError, A)"
| "plan_create (Suc k) self nm (A, p) =
     (if \<not> (contains (target self) nm \<or> contains (state self) nm) then Inl (AssertionError, A)
      else
        case (case map_of (target self) nm of
                Some r \<Rightarrow> Inr r
              | None \<Rightarrow> (case map_of (state self) nm of
                           Some r \<Rightarrow> Inr r
                         | None \<Rightarrow> Inl KeyError)) of
          Inl e \<Rightarrow> Inl (e, A)
        | Inr r \<Rightarrow>
           (case for_each (apply_resource k self) (tools r) (A, p) of
              Inl e \<Rightarrow> Inl e
            | Inr s1 \<Rightarrow>
               (case for_each (apply_resource k self) (deps r) s1 of
                  Inl e \<Rightarrow> Inl e
                | Inr (A2, p2) \<Rightarrow> Inr (A2, p2 @ [''+'' @ nm]))))"
| "plan_delete 0 self nm (A, p) = Inl (RecursionError, A)"
| "plan_delete (Suc k) self nm (A, p) =
     (if \<not> contains (state self) nm then Inl (AssertionError, A)
      else
        case (if has_node (tools_deps_graph self) nm
              then (case predecessors (tools_deps_graph self) nm of
                      Inl e \<Rightarrow> Inl (e, A)
                    | Inr users \<Rightarrow> for_each (apply_resource k self) users (A, p))
              else Inr (A, p)) of
          Inl e \<Rightarrow> Inl e
        | Inr (A1, p1) \<Rightarrow>
           (case predecessors (delete_deps_graph self) nm of
              Inl e \<Rightarrow> Inl (e, A1)
            | Inr dependees \<Rightarrow>
               (case for_each (plan_delete k self) dependees (A1, p1) of
                  Inl e \<Rightarrow> Inl e
                | Inr (A2, p2) \<Rightarrow>
                   (case map_of (state self) nm of
                      None \<Rightarrow> Inl (KeyError, A2)
                    | Some r \<Rightarrow>
                       (case for_each (\<lambda>tool (B, q). apply_resource k self tool (B - {nm}, q))
                               (tools r) (A2, p2) of
                          Inl e \<Rightarrow> Inl e
                        | Inr (A3, p3) \<Rightarrow> Inr (A3, p3 @ [''-'' @ nm]))))))"

subsection \<open>The top level\<close>

definition validate_acyclic :: "planner \<Rightarrow> error + unit" where
  "validate_acyclic self =
     (if has_cycle (compose (delete_deps_graph self) (tools_deps_graph self))
      then Inl ValueError else Inr ())"

text \<open>The backfill loop over the keys of the target, in their order.\<close>

fun backfill :: "string list \<Rightarrow> string list \<Rightarrow> string list" where
  "backfill [] p = p"
| "backfill (t # ts) p =
     backfill ts (if ''-'' @ t \<in> set p \<and> \<not> ''+'' @ t \<in> set p then p @ [''+'' @ t] else p)"

text \<open>The last loop yields every element of the plan that was not seen before.\<close>

fun dedup :: "string set \<Rightarrow> string list \<Rightarrow> string list" where
  "dedup visited [] = []"
| "dedup visited (e # es) =
     (if e \<notin> visited then e # dedup (insert e visited) es else dedup (insert e visited) es)"

text \<open>
  \<^verbatim>\<open>specifiers or (target.keys() | state.keys())\<close>: \<^verbatim>\<open>None\<close> and the empty list are both
  false, and the union of the keys is a set, so that every name is in it once.
\<close>

definition working_set :: "planner \<Rightarrow> string list option \<Rightarrow> string list" where
  "working_set self specifiers =
     sort (case specifiers of
             None \<Rightarrow> remdups (map fst (target self) @ map fst (state self))
           | Some [] \<Rightarrow> remdups (map fst (target self) @ map fst (state self))
           | Some (x # xs) \<Rightarrow> x # xs)"

text \<open>
  \<^verbatim>\<open>plan\<close> is a generator: its body runs when the caller iterates, and everything up to
  the dedup loop runs before the first element is yielded. The model returns the whole
  sequence (or the error that was raised before the first element) and the planner
  with its set \<^verbatim>\<open>_applied\<close> as the call left it.
\<close>

definition plan :: "planner \<Rightarrow> string list option \<Rightarrow> nat \<Rightarrow> (error + string list) \<times> planner" where
  "plan self specifiers limit =
     (case validate_acyclic self of
        Inl e \<Rightarrow> (Inl e, self)
      | Inr _ \<Rightarrow>
         (case for_each (apply_resource limit self) (working_set self specifiers) ({}, []) of
            Inl (e, A) \<Rightarrow> (Inl e, self\<lparr>applied := A\<rparr>)
          | Inr (A, p) \<Rightarrow>
             (Inr (dedup {} (backfill (map fst (target self)) p)), self\<lparr>applied := A\<rparr>)))"

subsection \<open>Notions used to state the properties\<close>

text \<open>A resource as the tests build it, paired with its key.\<close>

definition TR :: "string \<Rightarrow> string list \<Rightarrow> string list \<Rightarrow> string \<times> resource" where
  "TR nm ds ts = (nm, \<lparr>name = nm, deps = ds, tools = ts\<rparr>)"

text \<open>The element \<open>x\<close> stands at position \<open>i\<close> of the sequence.\<close>

definition occurs_at :: "'a list \<Rightarrow> nat \<Rightarrow> 'a \<Rightarrow> bool" where
  "occurs_at xs i x = (i < length xs \<and> xs ! i = x)"

text \<open>No \<open>y\<close> stands before the first \<open>x\<close>: every \<open>y\<close> has an \<open>x\<close> before it.\<close>

fun comes_first :: "'a \<Rightarrow> 'a \<Rightarrow> 'a list \<Rightarrow> bool" where
  "comes_first x y [] = True"
| "comes_first x y (e # es) = (e = x \<or> (e \<noteq> y \<and> comes_first x y es))"

text \<open>
  The invariant of the list \<^verbatim>\<open>plan\<close> while the planner runs: only current resources are
  deleted, a current resource is created only after its deletion, and a resource is
  deleted only after the resources that depend on it.
\<close>

definition plan_inv :: "planner \<Rightarrow> string list \<Rightarrow> bool" where
  "plan_inv self p =
     ((\<forall>n. Delete n \<in> set p \<longrightarrow> contains (state self) n) \<and>
      (\<forall>n. contains (state self) n \<longrightarrow> comes_first (Delete n) (Create n) p) \<and>
      (\<forall>e \<in> set (g_edges (delete_deps_graph self)).
         comes_first (Delete (fst e)) (Delete (snd e)) p))"

text \<open>
  The edges that a collection declares, from a resource to each of its dependencies and
  tools, and whether a list of edges has a directed cycle.
\<close>

definition edges_of :: "resources \<Rightarrow> (string \<times> string) list" where
  "edges_of d = concat (map (\<lambda>(nm, r). map (Pair nm) (deps r @ tools r)) d)"

definition cyclic :: "(string \<times> string) list \<Rightarrow> bool" where
  "cyclic es = (\<exists>x \<in> set (map fst es). (x, x) \<in> (set es)\<^sup>+)"

text \<open>The resources of the test suite \<^verbatim>\<open>apply_planner_test.py\<close>.\<close>

definition TEST_RESOURCES_1 :: resources where
  "TEST_RESOURCES_1 =
     [TR ''km-config'' [] [],
      TR ''km'' [''km-config''] [],
      TR ''pes-spool'' [] [''km''],
      TR ''pes'' [''km'', ''pes-spool''] []]"

definition TEST_RESOURCES_2 :: resources where
  "TEST_RESOURCES_2 =
     [TR ''adp-rpm'' [] [],
      TR ''database-permission-updater'' [''adp-rpm''] [],
      TR ''adp-config'' [''adp-rpm''] [''database-permission-updater'']]"

text \<open>The scenario of a changed tool: \<^verbatim>\<open>userB\<close> uses \<^verbatim>\<open>toolA\<close>.\<close>

definition tool_scenario :: resources where
  "tool_scenario = [TR ''toolA'' [] [], TR ''userB'' [] [''toolA'']]"

text \<open>
  An input on which a resource is created before its tool: \<^verbatim>\<open>c\<close> and \<^verbatim>\<open>d\<close> exist and are
  changed, \<^verbatim>\<open>d\<close> uses \<^verbatim>\<open>c\<close> as a tool; the target adds \<^verbatim>\<open>a\<close> (which depends on \<^verbatim>\<open>c\<close>) and
  \<^verbatim>\<open>b\<close> (which uses \<^verbatim>\<open>a\<close> as a tool), and \<^verbatim>\<open>d\<close> now depends on \<^verbatim>\<open>b\<close>.
\<close>

definition ordering_state :: resources where
  "ordering_state = [TR ''c'' [] [], TR ''d'' [] [''c'']]"

definition ordering_target :: resources where
  "ordering_target =
     [TR ''a'' [''c''] [], TR ''b'' [] [''a''], TR ''c'' [] [], TR ''d'' [''b''] [''c'']]"

text \<open>
  Two invariants of a run that deletes nothing: the tools of every created resource are
  resolved, and once a tool is created no resource that uses it was created before it.
\<close>

definition tools_known :: "resources \<Rightarrow> string set \<Rightarrow> string list \<Rightarrow> bool" where
  "tools_known tg A p =
     (\<forall>r res t. Create r \<in> set p \<longrightarrow> map_of tg r = Some res \<longrightarrow> t \<in> set (tools res) \<longrightarrow> t \<in> A)"

definition tools_first :: "resources \<Rightarrow> string list \<Rightarrow> bool" where
  "tools_first tg p =
     (\<forall>r res t. map_of tg r = Some res \<longrightarrow> t \<in> set (tools res) \<longrightarrow> Create t \<in> set p \<longrightarrow>
        comes_first (Create t) (Create r) p)"

section \<open>Properties of the planner\<close>

subsection \<open>Loops and successful calls\<close>

lemma for_each_invariant:
  assumes "for_each body xs s = Inr s'" and "I s"
    and "\<And>x t t'. x \<in> set xs \<Longrightarrow> I t \<Longrightarrow> body x t = Inr t' \<Longrightarrow> I t'"
  shows "I s'"
  using assms
proof (induction xs arbitrary: s)
  case Nil
  then show ?case by simp
next
  case (Cons x xs)
  from Cons.prems(1) obtain t where t: "body x s = Inr t" and rest: "for_each body xs t = Inr s'"
    by (auto split: sum.splits)
  have "I t" using Cons.prems(3) [of x s t] Cons.prems(2) t by simp
  moreover have "I u'" if "y \<in> set xs" "I u" "body y u = Inr u'" for y u u'
    using Cons.prems(3) [of y u u'] that by simp
  ultimately show ?case using Cons.IH [OF rest] by blast
qed

lemma for_each_collect:
  assumes "for_each body xs s = Inr s'" and "I s"
    and "\<And>x t t'. x \<in> set xs \<Longrightarrow> I t \<Longrightarrow> body x t = Inr t' \<Longrightarrow>
           I t' \<and> set (snd t) \<subseteq> set (snd t') \<and> f x \<in> set (snd t')"
  shows "I s' \<and> set (snd s) \<subseteq> set (snd s') \<and> (\<forall>x \<in> set xs. f x \<in> set (snd s'))"
  using assms
proof (induction xs arbitrary: s)
  case Nil
  then show ?case by simp
next
  case (Cons x xs)
  from Cons.prems(1) obtain t where t: "body x s = Inr t" and rest: "for_each body xs t = Inr s'"
    by (auto split: sum.splits)
  have st: "I t \<and> set (snd s) \<subseteq> set (snd t) \<and> f x \<in> set (snd t)"
    using Cons.prems(3) [of x s t] Cons.prems(2) t by simp
  have "I u' \<and> set (snd u) \<subseteq> set (snd u') \<and> f y \<in> set (snd u')"
    if "y \<in> set xs" "I u" "body y u = Inr u'" for y u u'
    using Cons.prems(3) [of y u u'] that by simp
  with st have "I s' \<and> set (snd t) \<subseteq> set (snd s') \<and> (\<forall>x \<in> set xs. f x \<in> set (snd s'))"
    using Cons.IH [OF rest] by blast
  then show ?case using st by auto
qed

lemma apply_resource_Suc_Inr:
  assumes "apply_resource (Suc k) self nm (A, p) = Inr s'"
  shows "(nm \<in> A \<and> s' = (A, p))
    \<or> (nm \<notin> A \<and> \<not> contains (target self) nm \<and> plan_delete k self nm (insert nm A, p) = Inr s')
    \<or> (nm \<notin> A \<and> contains (target self) nm \<and> is_changed self nm \<and>
         (\<exists>s1. plan_delete k self nm (insert nm A, p) = Inr s1 \<and> plan_create k self nm s1 = Inr s'))
    \<or> (nm \<notin> A \<and> contains (target self) nm \<and> \<not> is_changed self nm \<and> \<not> contains (state self) nm \<and>
         plan_create k self nm (insert nm A, p) = Inr s')
    \<or> (nm \<notin> A \<and> contains (target self) nm \<and> \<not> is_changed self nm \<and> contains (state self) nm \<and>
         s' = (insert nm A, p))"
  using assms by (auto split: if_splits sum.splits)

lemma plan_create_Suc_Inr:
  assumes "plan_create (Suc k) self nm (A, p) = Inr s'"
  obtains r s1 A2 p2 where
    "contains (target self) nm \<or> contains (state self) nm"
    "map_of (target self) nm = Some r \<or> (map_of (target self) nm = None \<and> map_of (state self) nm = Some r)"
    "for_each (apply_resource k self) (tools r) (A, p) = Inr s1"
    "for_each (apply_resource k self) (deps r) s1 = Inr (A2, p2)"
    "s' = (A2, p2 @ [Create nm])"
  using assms by (auto simp: Create_def split: if_splits sum.splits option.splits prod.splits)

lemma plan_delete_Suc_Inr:
  assumes "plan_delete (Suc k) self nm (A, p) = Inr s'"
  obtains users dependees r A1 p1 A2 p2 A3 p3 where
    "contains (state self) nm"
    "for_each (apply_resource k self) users (A, p) = Inr (A1, p1)"
    "predecessors (delete_deps_graph self) nm = Inr dependees"
    "for_each (plan_delete k self) dependees (A1, p1) = Inr (A2, p2)"
    "map_of (state self) nm = Some r"
    "for_each (\<lambda>tool (B, q). apply_resource k self tool (B - {nm}, q)) (tools r) (A2, p2) = Inr (A3, p3)"
    "s' = (A3, p3 @ [Delete nm])"
proof -
  from assms have c: "contains (state self) nm" by (auto split: if_splits)
  define users where "users = (if has_node (tools_deps_graph self) nm
     then (case predecessors (tools_deps_graph self) nm of Inl e \<Rightarrow> [] | Inr us \<Rightarrow> us) else [])"
  from assms c obtain A1 p1 where 1: "for_each (apply_resource k self) users (A, p) = Inr (A1, p1)"
    and r1: "(case predecessors (delete_deps_graph self) nm of
              Inl e \<Rightarrow> Inl (e, A1)
            | Inr dependees \<Rightarrow>
               (case for_each (plan_delete k self) dependees (A1, p1) of
                  Inl e \<Rightarrow> Inl e
                | Inr (A2, p2) \<Rightarrow>
                   (case map_of (state self) nm of
                      None \<Rightarrow> Inl (KeyError, A2)
                    | Some r \<Rightarrow>
                       (case for_each (\<lambda>tool (B, q). apply_resource k self tool (B - {nm}, q))
                               (tools r) (A2, p2) of
                          Inl e \<Rightarrow> Inl e
                        | Inr (A3, p3) \<Rightarrow> Inr (A3, p3 @ [''-'' @ nm])))) ) = Inr s'"
    unfolding users_def by (auto split: if_splits sum.splits prod.splits)
  from r1 obtain dependees where 2: "predecessors (delete_deps_graph self) nm = Inr dependees"
    by (auto split: sum.splits)
  from r1 2 obtain A2 p2 where 3: "for_each (plan_delete k self) dependees (A1, p1) = Inr (A2, p2)"
    by (auto split: sum.splits)
  from r1 2 3 obtain r where 4: "map_of (state self) nm = Some r"
    by (auto split: option.splits)
  from r1 2 3 4 obtain A3 p3 where 5: "for_each (\<lambda>tool (B, q). apply_resource k self tool (B - {nm}, q)) (tools r) (A2, p2) = Inr (A3, p3)"
     and 6: "s' = (A3, p3 @ [Delete nm])"
    by (auto simp: Delete_def split: sum.splits)
  show thesis using that [OF c 1 2 3 4 5 6] .
qed

subsection \<open>The invariant of the plan\<close>

lemma comes_first_append:
  "comes_first x y (p @ q) = (comes_first x y p \<and> (x \<in> set p \<or> comes_first x y q))"
  by (induction p) auto

lemma comes_first_mem: "comes_first x y xs \<Longrightarrow> y \<in> set xs \<Longrightarrow> x \<in> set xs"
  by (induction xs) auto

lemma set_dedup: "set (dedup V p) = set p - V"
  by (induction p arbitrary: V) auto

lemma distinct_dedup: "distinct (dedup V p)"
  by (induction p arbitrary: V) (auto simp: set_dedup)

lemma comes_first_dedup: "comes_first x y p \<Longrightarrow> x \<notin> V \<Longrightarrow> comes_first x y (dedup V p)"
  by (induction p arbitrary: V) (auto simp: insert_absorb)

lemma comes_first_nth:
  assumes "comes_first x y xs" and "x \<noteq> y" and "distinct xs"
    and "i < length xs" and "j < length xs" and "xs ! i = x" and "xs ! j = y"
  shows "i < j"
  using assms
proof (induction xs arbitrary: i j)
  case Nil
  then show ?case by simp
next
  case (Cons e es)
  show ?case
  proof (cases j)
    case 0
    with Cons.prems show ?thesis by auto
  next
    case (Suc j')
    show ?thesis
    proof (cases i)
      case 0
      then show ?thesis using Suc by simp
    next
      case (Suc i')
      with Cons.prems \<open>j = Suc j'\<close> have "e \<noteq> x" by auto
      with Cons.prems Suc \<open>j = Suc j'\<close> have "i' < j'"
        using Cons.IH [of i' j'] by auto
      then show ?thesis using Suc \<open>j = Suc j'\<close> by simp
    qed
  qed
qed

lemma plan_inv_Nil: "plan_inv self []"
  by (simp add: plan_inv_def)

lemma plan_inv_Create:
  assumes "plan_inv self p" and "contains (state self) n \<Longrightarrow> Delete n \<in> set p"
  shows "plan_inv self (p @ [Create n])"
  using assms by (auto simp: plan_inv_def comes_first_append Create_def Delete_def)

lemma plan_inv_Delete:
  assumes "plan_inv self p" and "contains (state self) n"
    and "\<And>b. (b, n) \<in> set (g_edges (delete_deps_graph self)) \<Longrightarrow> Delete b \<in> set p"
  shows "plan_inv self (p @ [Delete n])"
  using assms by (auto simp: plan_inv_def comes_first_append Create_def Delete_def)

lemma predecessors_Inr:
  "predecessors g n = Inr ps \<Longrightarrow> set ps = {b. (b, n) \<in> set (g_edges g)}"
  by (force simp: predecessors_def split: if_splits)

lemma loop_plan_inv:
  assumes step: "\<And>x t t'. body x t = Inr t' \<Longrightarrow> plan_inv self (snd t) \<Longrightarrow>
                   plan_inv self (snd t') \<and> set (snd t) \<subseteq> set (snd t')"
    and run: "for_each body xs s = Inr s'" and inv: "plan_inv self (snd s)"
  shows "plan_inv self (snd s') \<and> set (snd s) \<subseteq> set (snd s')"
proof (rule for_each_invariant [where I = "\<lambda>t. plan_inv self (snd t) \<and> set (snd s) \<subseteq> set (snd t)", OF run])
  show "plan_inv self (snd s) \<and> set (snd s) \<subseteq> set (snd s)" using inv by simp
next
  fix x t t'
  assume "plan_inv self (snd t) \<and> set (snd s) \<subseteq> set (snd t)" and "body x t = Inr t'"
  then show "plan_inv self (snd t') \<and> set (snd s) \<subseteq> set (snd t')"
    using step [of x t t'] by auto
qed

lemma planner_plan_inv:
  "(\<forall>n s s'. apply_resource k self n s = Inr s' \<longrightarrow> plan_inv self (snd s) \<longrightarrow>
       plan_inv self (snd s') \<and> set (snd s) \<subseteq> set (snd s')) \<and>
   (\<forall>n s s'. plan_create k self n s = Inr s' \<longrightarrow> plan_inv self (snd s) \<longrightarrow>
       (contains (state self) n \<longrightarrow> Delete n \<in> set (snd s)) \<longrightarrow>
       plan_inv self (snd s') \<and> set (snd s) \<subseteq> set (snd s')) \<and>
   (\<forall>n s s'. plan_delete k self n s = Inr s' \<longrightarrow> plan_inv self (snd s) \<longrightarrow>
       plan_inv self (snd s') \<and> set (snd s) \<subseteq> set (snd s') \<and> Delete n \<in> set (snd s'))"
proof (induction k)
  case 0
  show ?case by auto
next
  case (Suc k)
  have IHa: "\<And>n s s'. apply_resource k self n s = Inr s' \<Longrightarrow> plan_inv self (snd s) \<Longrightarrow>
       plan_inv self (snd s') \<and> set (snd s) \<subseteq> set (snd s')"
    using Suc by blast
  have IHc: "\<And>n s s'. plan_create k self n s = Inr s' \<Longrightarrow> plan_inv self (snd s) \<Longrightarrow>
       (contains (state self) n \<Longrightarrow> Delete n \<in> set (snd s)) \<Longrightarrow>
       plan_inv self (snd s') \<and> set (snd s) \<subseteq> set (snd s')"
    using Suc by blast
  have IHd: "\<And>n s s'. plan_delete k self n s = Inr s' \<Longrightarrow> plan_inv self (snd s) \<Longrightarrow>
       plan_inv self (snd s') \<and> set (snd s) \<subseteq> set (snd s') \<and> Delete n \<in> set (snd s')"
    using Suc by blast
  have A: "plan_inv self (snd s') \<and> set (snd s) \<subseteq> set (snd s')"
    if run: "apply_resource (Suc k) self n s = Inr s'" and inv: "plan_inv self (snd s)" for n s s'
  proof -
    obtain B p where s: "s = (B, p)" by (cases s)
    note c = apply_resource_Suc_Inr [OF run [unfolded s]]
    consider (skip) "s' = (B, p)" | (keep) "s' = (insert n B, p)"
      | (del) "plan_delete k self n (insert n B, p) = Inr s'"
      | (repl) s1 where "plan_delete k self n (insert n B, p) = Inr s1" "plan_create k self n s1 = Inr s'"
      | (new) "\<not> contains (state self) n" "plan_create k self n (insert n B, p) = Inr s'"
      using c by blast
    then show ?thesis
    proof cases
      case skip then show ?thesis using inv s by simp
    next
      case keep then show ?thesis using inv s by simp
    next
      case del then show ?thesis using IHd [OF del] inv s by simp
    next
      case repl
      have 1: "plan_inv self (snd s1) \<and> set p \<subseteq> set (snd s1) \<and> Delete n \<in> set (snd s1)"
        using IHd [OF repl(1)] inv s by simp
      have "plan_inv self (snd s') \<and> set (snd s1) \<subseteq> set (snd s')"
        using IHc [OF repl(2)] 1 by simp
      then show ?thesis using 1 s by auto
    next
      case new then show ?thesis using IHc [OF new(2)] inv s by simp
    qed
  qed
  have C: "plan_inv self (snd s') \<and> set (snd s) \<subseteq> set (snd s')"
    if run: "plan_create (Suc k) self n s = Inr s'" and inv: "plan_inv self (snd s)"
      and del: "contains (state self) n \<longrightarrow> Delete n \<in> set (snd s)" for n s s'
  proof -
    obtain B p where s: "s = (B, p)" by (cases s)
    from run [unfolded s] obtain r s1 A2 p2 where
      "contains (target self) n \<or> contains (state self) n" and
      "map_of (target self) n = Some r \<or>
         (map_of (target self) n = None \<and> map_of (state self) n = Some r)" and
      l1: "for_each (apply_resource k self) (tools r) (B, p) = Inr s1" and
      l2: "for_each (apply_resource k self) (deps r) s1 = Inr (A2, p2)" and
      s': "s' = (A2, p2 @ [Create n])"
      by (rule plan_create_Suc_Inr)
    have 1: "plan_inv self (snd s1) \<and> set p \<subseteq> set (snd s1)"
      using loop_plan_inv [OF IHa l1] inv s by simp
    have 2: "plan_inv self p2 \<and> set (snd s1) \<subseteq> set p2"
      using loop_plan_inv [OF IHa l2] 1 by simp
    have "plan_inv self (p2 @ [Create n])"
      using plan_inv_Create [of self p2 n] 1 2 del s by auto
    then show ?thesis using 1 2 s s' by auto
  qed
  have D: "plan_inv self (snd s') \<and> set (snd s) \<subseteq> set (snd s') \<and> Delete n \<in> set (snd s')"
    if run: "plan_delete (Suc k) self n s = Inr s'" and inv: "plan_inv self (snd s)" for n s s'
  proof -
    obtain B p where s: "s = (B, p)" by (cases s)
    from run [unfolded s] obtain users dependees r A1 p1 A2 p2 A3 p3 where
      c: "contains (state self) n" and
      l1: "for_each (apply_resource k self) users (B, p) = Inr (A1, p1)" and
      pr: "predecessors (delete_deps_graph self) n = Inr dependees" and
      l2: "for_each (plan_delete k self) dependees (A1, p1) = Inr (A2, p2)" and
      "map_of (state self) n = Some r" and
      l3: "for_each (\<lambda>tool (B, q). apply_resource k self tool (B - {n}, q)) (tools r) (A2, p2) = Inr (A3, p3)" and
      s': "s' = (A3, p3 @ [Delete n])"
      by (rule plan_delete_Suc_Inr)
    have 1: "plan_inv self p1 \<and> set p \<subseteq> set p1"
      using loop_plan_inv [OF IHa l1] inv s by simp
    have 2: "plan_inv self p2 \<and> set p1 \<subseteq> set p2 \<and> (\<forall>b \<in> set dependees. Delete b \<in> set p2)"
      using for_each_collect [where I = "\<lambda>t. plan_inv self (snd t)" and f = Delete, OF l2] IHd 1
      by simp
    have 3: "plan_inv self p3 \<and> set p2 \<subseteq> set p3"
    proof -
      have "plan_inv self (snd t') \<and> set (snd t) \<subseteq> set (snd t')"
        if b: "(\<lambda>tool (B, q). apply_resource k self tool (B - {n}, q)) x t = Inr t'"
          and i: "plan_inv self (snd t)" for x t t'
      proof -
        obtain C q where t: "t = (C, q)" by (cases t)
        from b have "apply_resource k self x (C - {n}, q) = Inr t'" by (simp add: t)
        from IHa [OF this] i show ?thesis by (simp add: t)
      qed
      from loop_plan_inv [OF this l3] 2 show ?thesis by simp
    qed
    have "plan_inv self (p3 @ [Delete n])"
    proof (rule plan_inv_Delete)
      show "plan_inv self p3" using 3 by simp
      show "contains (state self) n" by (rule c)
      fix b assume "(b, n) \<in> set (g_edges (delete_deps_graph self))"
      then have "b \<in> set dependees" using predecessors_Inr [OF pr] by simp
      then show "Delete b \<in> set p3" using 2 3 by auto
    qed
    then show ?thesis using 1 2 3 s s' by auto
  qed
  show ?case using A C D by blast
qed

subsection \<open>Graph construction\<close>

lemma add_node_edges: "g_edges (add_node g n) = g_edges g"
  by (simp add: add_node_def)

lemma add_node_nodes: "set (g_nodes (add_node g n)) = insert n (set (g_nodes g))"
  by (auto simp: add_node_def)

lemma add_edge_edges: "set (g_edges (add_edge g e)) = insert e (set (g_edges g))"
  by (auto simp: add_edge_def Let_def add_node_edges)

lemma add_edge_nodes: "set (g_nodes (add_edge g e)) = {fst e, snd e} \<union> set (g_nodes g)"
  by (auto simp: add_edge_def Let_def add_node_nodes)

lemma add_edges_from_edges: "set (g_edges (add_edges_from g es)) = set es \<union> set (g_edges g)"
  unfolding add_edges_from_def
  by (induction es arbitrary: g) (auto simp: add_edge_edges)

lemma add_edges_from_nodes:
  "set (g_nodes (add_edges_from g es)) = fst ` set es \<union> snd ` set es \<union> set (g_nodes g)"
  unfolding add_edges_from_def
  by (induction es arbitrary: g) (auto simp: add_edge_nodes)

lemma delete_deps_fold_edges:
  "set (g_edges (foldl (\<lambda>g (nm, r). add_edges_from (add_node g nm) (map (\<lambda>d. (nm, d)) (deps r))) g0 st))
     = set (g_edges g0) \<union> {(n, d). \<exists>r. (n, r) \<in> set st \<and> d \<in> set (deps r)}"
proof (induction st arbitrary: g0)
  case Nil
  then show ?case by simp
next
  case (Cons a st)
  obtain nm r where a: "a = (nm, r)" by (cases a)
  show ?case
    unfolding a by (simp add: Cons.IH add_edges_from_edges add_node_edges) fastforce
qed

lemma tools_deps_fold_edges:
  "set (g_edges (foldl (\<lambda>g (nm, r). add_edges_from g (map (\<lambda>d. (nm, d)) (tools r))) g0 st))
     = set (g_edges g0) \<union> {(n, d). \<exists>r. (n, r) \<in> set st \<and> d \<in> set (tools r)}"
proof (induction st arbitrary: g0)
  case Nil
  then show ?case by simp
next
  case (Cons a st)
  obtain nm r where a: "a = (nm, r)" by (cases a)
  show ?case
    unfolding a by (simp add: Cons.IH add_edges_from_edges) fastforce
qed

lemma delete_deps_graph_edges:
  "set (g_edges (generate_delete_deps_graph st)) = {(n, d). \<exists>r. (n, r) \<in> set st \<and> d \<in> set (deps r)}"
  by (simp add: generate_delete_deps_graph_def delete_deps_fold_edges DiGraph_def)

lemma tools_deps_graph_edges:
  "set (g_edges (generate_tools_deps_graph st)) = {(n, d). \<exists>r. (n, r) \<in> set st \<and> d \<in> set (tools r)}"
  by (simp add: generate_tools_deps_graph_def tools_deps_fold_edges DiGraph_def)

subsection \<open>Backfill and deduplication\<close>

lemma backfill_subset: "set p \<subseteq> set (backfill ts p)"
proof (induction ts arbitrary: p)
  case Nil
  then show ?case by simp
next
  case (Cons t ts)
  have "set p \<subseteq> set (if ''-'' @ t \<in> set p \<and> \<not> ''+'' @ t \<in> set p then p @ [''+'' @ t] else p)"
    by auto
  also have "\<dots> \<subseteq> set (backfill (t # ts) p)"
    using Cons.IH by simp
  finally show ?case .
qed

lemma backfill_Delete: "Delete n \<in> set (backfill ts p) \<longleftrightarrow> Delete n \<in> set p"
  by (induction ts arbitrary: p) (auto simp: Delete_def)

lemma backfill_inv: "plan_inv self p \<Longrightarrow> plan_inv self (backfill ts p)"
proof (induction ts arbitrary: p)
  case Nil
  then show ?case by simp
next
  case (Cons t ts)
  have "plan_inv self (if ''-'' @ t \<in> set p \<and> \<not> ''+'' @ t \<in> set p then p @ [''+'' @ t] else p)"
    using Cons.prems plan_inv_Create [of self p t] by (simp add: Create_def Delete_def)
  then show ?case using Cons.IH by simp
qed

lemma backfill_covers:
  "t \<in> set ts \<Longrightarrow> Delete t \<in> set p \<Longrightarrow> Create t \<in> set (backfill ts p)"
proof (induction ts arbitrary: p)
  case Nil
  then show ?case by simp
next
  case (Cons u ts)
  let ?q = "if ''-'' @ u \<in> set p \<and> \<not> ''+'' @ u \<in> set p then p @ [''+'' @ u] else p"
  show ?case
  proof (cases "t = u")
    case True
    then have "Create t \<in> set ?q" using Cons.prems by (auto simp: Create_def Delete_def)
    then show ?thesis using backfill_subset [of ?q ts] by auto
  next
    case False
    then have "t \<in> set ts" using Cons.prems by simp
    moreover have "Delete t \<in> set ?q" using Cons.prems by auto
    ultimately show ?thesis using Cons.IH [of ?q] by simp
  qed
qed

lemma plan_inv_dedup: "plan_inv self p \<Longrightarrow> plan_inv self (dedup {} p)"
  by (simp add: plan_inv_def set_dedup comes_first_dedup)

subsection \<open>The result of a successful run\<close>

lemma plan_Inr:
  assumes "plan self specifiers k = (Inr out, self')"
  obtains A p where
    "validate_acyclic self = Inr ()"
    "for_each (apply_resource k self) (working_set self specifiers) ({}, []) = Inr (A, p)"
    "out = dedup {} (backfill (map fst (target self)) p)"
    "self' = self\<lparr>applied := A\<rparr>"
  using assms by (auto simp: plan_def split: sum.splits prod.splits)

lemma plan_collapse: "fst (plan self specifiers k) = r \<Longrightarrow>
   plan self specifiers k = (r, snd (plan self specifiers k))"
  by (metis prod.collapse)

lemma plan_out_inv:
  assumes "plan self specifiers k = (Inr out, self')"
  shows "plan_inv self out" and "distinct out"
    and "\<And>t. contains (target self) t \<Longrightarrow> Delete t \<in> set out \<Longrightarrow> Create t \<in> set out"
proof -
  from assms obtain A p where
    run: "for_each (apply_resource k self) (working_set self specifiers) ({}, []) = Inr (A, p)" and
    out: "out = dedup {} (backfill (map fst (target self)) p)"
    by (rule plan_Inr)
  have step: "\<And>x t t'. apply_resource k self x t = Inr t' \<Longrightarrow> plan_inv self (snd t) \<Longrightarrow>
     plan_inv self (snd t') \<and> set (snd t) \<subseteq> set (snd t')"
    using planner_plan_inv [of k self] by blast
  have "plan_inv self p"
    using loop_plan_inv [OF step run] plan_inv_Nil by simp
  then show "plan_inv self out"
    unfolding out by (intro plan_inv_dedup backfill_inv)
  show "distinct out" unfolding out by (rule distinct_dedup)
  fix t assume "contains (target self) t" and "Delete t \<in> set out"
  then show "Create t \<in> set out"
    unfolding out using backfill_covers [of t "map fst (target self)" p]
    by (simp add: set_dedup backfill_Delete contains_def)
qed

lemma ApplyPlanner_sel:
  "state (ApplyPlanner st tg ch) = st" "target (ApplyPlanner st tg ch) = tg"
  "changed (ApplyPlanner st tg ch) = ch"
  "delete_deps_graph (ApplyPlanner st tg ch) = generate_delete_deps_graph st"
  "tools_deps_graph (ApplyPlanner st tg ch) = generate_tools_deps_graph st"
  by (simp_all add: ApplyPlanner_def)

lemma Create_neq_Delete: "Create a \<noteq> Delete b" "Delete b \<noteq> Create a"
  by (simp_all add: Create_def Delete_def)

subsection \<open>Order and multiplicity of the operations\<close>

text \<open>
  Claim C7. When \<^verbatim>\<open>plan\<close> succeeds, no operation occurs twice in its output.
\<close>
theorem no_duplicate_operations:
  assumes "plan (ApplyPlanner st tg ch) specifiers k = (Inr out, self')"
  shows "distinct out"
  using plan_out_inv(2) [OF assms] .

text \<open>
  Claim C2. When \<^verbatim>\<open>plan\<close> succeeds, for a name that is changed and present in both
  collections, the position of its deletion in the output is strictly before the
  position of its creation.
\<close>
theorem deletion_precedes_recreation:
  assumes "plan (ApplyPlanner st tg ch) specifiers k = (Inr out, self')"
    and "n \<in> ch" and "contains st n" and "contains tg n"
    and "occurs_at out i (Delete n)" and "occurs_at out j (Create n)"
  shows "i < j"
proof -
  have "plan_inv (ApplyPlanner st tg ch) out" and d: "distinct out"
    using plan_out_inv [OF assms(1)] by blast+
  then have "comes_first (Delete n) (Create n) out"
    using assms(3) by (simp add: plan_inv_def ApplyPlanner_sel)
  then show ?thesis
    using comes_first_nth [of "Delete n" "Create n" out i j] d assms(5,6)
    by (simp add: occurs_at_def Create_neq_Delete)
qed

text \<open>
  Claim C3. When \<^verbatim>\<open>plan\<close> succeeds and the output deletes a name of the target
  collection, the output also creates that name, at a later position.
\<close>
theorem target_coverage:
  assumes "plan (ApplyPlanner st tg ch) specifiers k = (Inr out, self')"
    and "contains tg n" and "Delete n \<in> set out"
  shows "Create n \<in> set out \<and>
    (\<forall>i j. occurs_at out i (Delete n) \<longrightarrow> occurs_at out j (Create n) \<longrightarrow> i < j)"
proof -
  have inv: "plan_inv (ApplyPlanner st tg ch) out" and d: "distinct out"
    using plan_out_inv [OF assms(1)] by blast+
  have "contains st n"
    using inv assms(3) by (simp add: plan_inv_def ApplyPlanner_sel)
  then have cf: "comes_first (Delete n) (Create n) out"
    using inv by (simp add: plan_inv_def ApplyPlanner_sel)
  have "Create n \<in> set out"
    using plan_out_inv(3) [OF assms(1), of n] assms(2,3) by (simp add: ApplyPlanner_sel)
  moreover have "i < j" if "occurs_at out i (Delete n)" "occurs_at out j (Create n)" for i j
    using comes_first_nth [of "Delete n" "Create n" out i j] cf d that
    by (simp add: occurs_at_def Create_neq_Delete)
  ultimately show ?thesis by blast
qed

text \<open>
  Claim C4. When \<^verbatim>\<open>plan\<close> succeeds, \<open>b\<close> is a current resource that lists \<open>a\<close> among
  its dependencies and the output deletes \<open>a\<close>, then the output deletes \<open>b\<close> too, at or
  before the position where it deletes \<open>a\<close>.
\<close>
theorem dependents_deleted_first:
  assumes "plan (ApplyPlanner st tg ch) specifiers k = (Inr out, self')"
    and "map_of st b = Some r" and "a \<in> set (deps r)" and "Delete a \<in> set out"
  shows "Delete b \<in> set out \<and>
    (\<forall>i j. occurs_at out i (Delete b) \<longrightarrow> occurs_at out j (Delete a) \<longrightarrow> i \<le> j)"
proof -
  have inv: "plan_inv (ApplyPlanner st tg ch) out" and d: "distinct out"
    using plan_out_inv [OF assms(1)] by blast+
  have "(b, r) \<in> set st" using assms(2) by (rule map_of_SomeD)
  then have "(b, a) \<in> set (g_edges (generate_delete_deps_graph st))"
    using assms(3) by (auto simp: delete_deps_graph_edges)
  then have cf: "comes_first (Delete b) (Delete a) out"
    using inv by (force simp: plan_inv_def ApplyPlanner_sel)
  have "Delete b \<in> set out" using comes_first_mem [OF cf assms(4)] .
  moreover have "i \<le> j" if "occurs_at out i (Delete b)" "occurs_at out j (Delete a)" for i j
  proof (cases "a = b")
    case True
    then have "i = j"
      using nth_eq_iff_index_eq [OF d, of i j] that by (simp add: occurs_at_def)
    then show ?thesis by simp
  next
    case False
    then have "Delete b \<noteq> Delete a" by (simp add: Delete_def)
    then have "i < j"
      using comes_first_nth [of "Delete b" "Delete a" out i j] cf d that
      by (simp add: occurs_at_def)
    then show ?thesis by simp
  qed
  ultimately show ?thesis by blast
qed

text \<open>
  Claim C10. A plan with an empty list of specifiers is the plan without specifiers:
  the working set is then the sorted list of the names of the current and target
  collections, each once.
\<close>
theorem empty_specifiers_as_absent:
  "plan (ApplyPlanner st tg ch) (Some []) k = plan (ApplyPlanner st tg ch) None k \<and>
   sorted (working_set (ApplyPlanner st tg ch) (Some [])) \<and>
   distinct (working_set (ApplyPlanner st tg ch) (Some [])) \<and>
   set (working_set (ApplyPlanner st tg ch) (Some [])) = fst ` set st \<union> fst ` set tg"
proof -
  have ws: "working_set (ApplyPlanner st tg ch) (Some []) = working_set (ApplyPlanner st tg ch) None"
    by (simp add: working_set_def)
  have "plan (ApplyPlanner st tg ch) (Some []) k = plan (ApplyPlanner st tg ch) None k"
    unfolding plan_def ws ..
  moreover have "sorted (working_set (ApplyPlanner st tg ch) (Some []))"
    and "distinct (working_set (ApplyPlanner st tg ch) (Some []))"
    and "set (working_set (ApplyPlanner st tg ch) (Some [])) = fst ` set st \<union> fst ` set tg"
    by (auto simp: working_set_def ApplyPlanner_sel)
  ultimately show ?thesis by simp
qed

subsection \<open>Instances on the resources of the test suite\<close>

text \<open>
  The two tests of \<^verbatim>\<open>apply_planner_test.py\<close> that are not used as instances below; the model
  gives the sequences that the tests expect.
\<close>

lemma test_all_new_except_changed_spool:
  "fst (plan (ApplyPlanner [TR ''pes-spool'' [] [''km'']] TEST_RESOURCES_1 {''pes-spool''})
          (Some [''pes-spool'']) 1000)
     = Inr [''+km-config'', ''+km'', ''-pes-spool'', ''+pes-spool'']"
  by code_simp

lemma test_2_all_new:
  "fst (plan (ApplyPlanner [] TEST_RESOURCES_2 {}) None 1000)
     = Inr [''+adp-rpm'', ''+database-permission-updater'', ''+adp-config'']"
  by code_simp

text \<open>
  When every resource of the first test collection is changed, the planner appends several operations twice; the output has each once.
\<close>
theorem no_duplicate_operations_witness:
  "fst (plan (ApplyPlanner TEST_RESOURCES_1 TEST_RESOURCES_1
              {''km-config'', ''km'', ''pes-spool'', ''pes''}) None 10)
     = Inr [''-pes'', ''-pes-spool'', ''+pes-spool'', ''-km'', ''-km-config'', ''+km-config'',
            ''+km'', ''+pes''] \<and>
   distinct [''-pes'', ''-pes-spool'', ''+pes-spool'', ''-km'', ''-km-config'', ''+km-config'',
            ''+km'', ''+pes'']"
proof -
  have h: "fst (plan (ApplyPlanner TEST_RESOURCES_1 TEST_RESOURCES_1
              {''km-config'', ''km'', ''pes-spool'', ''pes''}) None 10)
     = Inr [''-pes'', ''-pes-spool'', ''+pes-spool'', ''-km'', ''-km-config'', ''+km-config'',
            ''+km'', ''+pes'']"
    by code_simp
  from no_duplicate_operations [OF plan_collapse [OF h]] h show ?thesis by simp
qed

text \<open>
  With \<^verbatim>\<open>pes-spool\<close> and \<^verbatim>\<open>km\<close> changed, \<^verbatim>\<open>km\<close> is deleted at position 3 and created at position 4.
\<close>
theorem deletion_precedes_recreation_witness:
  "fst (plan (ApplyPlanner TEST_RESOURCES_1 TEST_RESOURCES_1 {''pes-spool'', ''km''}) None 10)
     = Inr [''-pes'', ''-pes-spool'', ''+pes-spool'', ''-km'', ''+km'', ''+pes''] \<and>
   ''km'' \<in> {''pes-spool'', ''km''} \<and> contains TEST_RESOURCES_1 ''km'' \<and>
   occurs_at [''-pes'', ''-pes-spool'', ''+pes-spool'', ''-km'', ''+km'', ''+pes''] 3 (Delete ''km'') \<and>
   occurs_at [''-pes'', ''-pes-spool'', ''+pes-spool'', ''-km'', ''+km'', ''+pes''] 4 (Create ''km'') \<and>
   (3::nat) < 4"
proof -
  have h: "fst (plan (ApplyPlanner TEST_RESOURCES_1 TEST_RESOURCES_1 {''pes-spool'', ''km''}) None 10)
     = Inr [''-pes'', ''-pes-spool'', ''+pes-spool'', ''-km'', ''+km'', ''+pes'']"
    by code_simp
  have c: "''km'' \<in> {''pes-spool'', ''km''}" by simp
  have s: "contains TEST_RESOURCES_1 ''km''" by code_simp
  have i: "occurs_at [''-pes'', ''-pes-spool'', ''+pes-spool'', ''-km'', ''+km'', ''+pes''] 3 (Delete ''km'')"
    by code_simp
  have j: "occurs_at [''-pes'', ''-pes-spool'', ''+pes-spool'', ''-km'', ''+km'', ''+pes''] 4 (Create ''km'')"
    by code_simp
  from deletion_precedes_recreation [OF plan_collapse [OF h] c s s i j] h c s i j
  show ?thesis by simp
qed

text \<open>
  With \<^verbatim>\<open>km-config\<close> changed, \<^verbatim>\<open>pes\<close> is deleted as a dependent and created again by the last pass.
\<close>
theorem target_coverage_witness:
  "fst (plan (ApplyPlanner TEST_RESOURCES_1 TEST_RESOURCES_1 {''km-config''}) None 10)
     = Inr [''-pes'', ''-km'', ''-km-config'', ''+km-config'', ''+km'', ''+pes''] \<and>
   contains TEST_RESOURCES_1 ''pes'' \<and>
   Delete ''pes'' \<in> set [''-pes'', ''-km'', ''-km-config'', ''+km-config'', ''+km'', ''+pes''] \<and>
   Create ''pes'' \<in> set [''-pes'', ''-km'', ''-km-config'', ''+km-config'', ''+km'', ''+pes''] \<and>
   occurs_at [''-pes'', ''-km'', ''-km-config'', ''+km-config'', ''+km'', ''+pes''] 0 (Delete ''pes'') \<and>
   occurs_at [''-pes'', ''-km'', ''-km-config'', ''+km-config'', ''+km'', ''+pes''] 5 (Create ''pes'') \<and>
   (0::nat) < 5"
proof -
  have h: "fst (plan (ApplyPlanner TEST_RESOURCES_1 TEST_RESOURCES_1 {''km-config''}) None 10)
     = Inr [''-pes'', ''-km'', ''-km-config'', ''+km-config'', ''+km'', ''+pes'']"
    by code_simp
  have c: "contains TEST_RESOURCES_1 ''pes''" by code_simp
  have d: "Delete ''pes'' \<in> set [''-pes'', ''-km'', ''-km-config'', ''+km-config'', ''+km'', ''+pes'']"
    by code_simp
  have i: "occurs_at [''-pes'', ''-km'', ''-km-config'', ''+km-config'', ''+km'', ''+pes''] 0 (Delete ''pes'')"
    by code_simp
  have j: "occurs_at [''-pes'', ''-km'', ''-km-config'', ''+km-config'', ''+km'', ''+pes''] 5 (Create ''pes'')"
    by code_simp
  from target_coverage [OF plan_collapse [OF h] c d] h c d i j show ?thesis by blast
qed

text \<open>
  When everything is removed, \<^verbatim>\<open>km\<close> (which depends on \<^verbatim>\<open>km-config\<close>) is deleted before it.
\<close>
theorem dependents_deleted_first_witness:
  "fst (plan (ApplyPlanner TEST_RESOURCES_1 [] {}) None 10)
     = Inr [''-pes'', ''-pes-spool'', ''-km'', ''-km-config''] \<and>
   map_of TEST_RESOURCES_1 ''km'' = Some \<lparr>name = ''km'', deps = [''km-config''], tools = []\<rparr> \<and>
   ''km-config'' \<in> set (deps \<lparr>name = ''km'', deps = [''km-config''], tools = []\<rparr>) \<and>
   Delete ''km-config'' \<in> set [''-pes'', ''-pes-spool'', ''-km'', ''-km-config''] \<and>
   Delete ''km'' \<in> set [''-pes'', ''-pes-spool'', ''-km'', ''-km-config''] \<and>
   occurs_at [''-pes'', ''-pes-spool'', ''-km'', ''-km-config''] 2 (Delete ''km'') \<and>
   occurs_at [''-pes'', ''-pes-spool'', ''-km'', ''-km-config''] 3 (Delete ''km-config'') \<and>
   (2::nat) \<le> 3"
proof -
  have h: "fst (plan (ApplyPlanner TEST_RESOURCES_1 [] {}) None 10)
     = Inr [''-pes'', ''-pes-spool'', ''-km'', ''-km-config'']"
    by code_simp
  have m: "map_of TEST_RESOURCES_1 ''km'' = Some \<lparr>name = ''km'', deps = [''km-config''], tools = []\<rparr>"
    by (simp add: TEST_RESOURCES_1_def TR_def)
  have a: "''km-config'' \<in> set (deps \<lparr>name = ''km'', deps = [''km-config''], tools = []\<rparr>)"
    by simp
  have d: "Delete ''km-config'' \<in> set [''-pes'', ''-pes-spool'', ''-km'', ''-km-config'']"
    by (simp add: Delete_def)
  have i: "occurs_at [''-pes'', ''-pes-spool'', ''-km'', ''-km-config''] 2 (Delete ''km'')"
    by code_simp
  have j: "occurs_at [''-pes'', ''-pes-spool'', ''-km'', ''-km-config''] 3 (Delete ''km-config'')"
    by code_simp
  from dependents_deleted_first [OF plan_collapse [OF h] m a d] h m a d i j show ?thesis by blast
qed

subsection \<open>Repeated invocations\<close>

lemma applied_irrelevant:
  "apply_resource k (self\<lparr>applied := X\<rparr>) = apply_resource k self \<and>
   plan_create k (self\<lparr>applied := X\<rparr>) = plan_create k self \<and>
   plan_delete k (self\<lparr>applied := X\<rparr>) = plan_delete k self"
proof (induction k)
  case 0
  show ?case by (intro conjI ext) auto
next
  case (Suc k)
  then have a: "apply_resource k (self\<lparr>applied := X\<rparr>) = apply_resource k self"
    and c: "plan_create k (self\<lparr>applied := X\<rparr>) = plan_create k self"
    and d: "plan_delete k (self\<lparr>applied := X\<rparr>) = plan_delete k self"
    by simp_all
  have "apply_resource (Suc k) (self\<lparr>applied := X\<rparr>) n s = apply_resource (Suc k) self n s" for n s
    by (cases s) (simp add: a c d is_changed_def cong: sum.case_cong)
  moreover have "plan_create (Suc k) (self\<lparr>applied := X\<rparr>) n s = plan_create (Suc k) self n s" for n s
    by (cases s) (simp add: a c d cong: sum.case_cong option.case_cong prod.case_cong if_cong)
  moreover have "plan_delete (Suc k) (self\<lparr>applied := X\<rparr>) n s = plan_delete (Suc k) self n s" for n s
    by (cases s) (simp add: a c d cong: sum.case_cong option.case_cong prod.case_cong if_cong)
  ultimately show ?case by (intro conjI ext)
qed

lemma plan_applied_irrelevant:
  "fst (plan (self\<lparr>applied := X\<rparr>) specifiers k) = fst (plan self specifiers k)"
proof -
  have v: "validate_acyclic (self\<lparr>applied := X\<rparr>) = validate_acyclic self"
    by (simp add: validate_acyclic_def)
  have w: "working_set (self\<lparr>applied := X\<rparr>) specifiers = working_set self specifiers"
    by (simp add: working_set_def cong: option.case_cong list.case_cong)
  have a: "apply_resource k (self\<lparr>applied := X\<rparr>) = apply_resource k self"
    using applied_irrelevant by simp
  show ?thesis
    unfolding plan_def v w a by (simp split: sum.splits prod.splits)
qed

lemma plan_snd: "\<exists>X. snd (plan self specifiers k) = self\<lparr>applied := X\<rparr>"
proof (cases "validate_acyclic self")
  case (Inl e)
  then have "snd (plan self specifiers k) = self\<lparr>applied := applied self\<rparr>"
    by (simp add: plan_def)
  then show ?thesis ..
next
  case (Inr u)
  show ?thesis
  proof (cases "for_each (apply_resource k self) (working_set self specifiers) ({}, [])")
    case (Inl ea)
    then have "snd (plan self specifiers k) = self\<lparr>applied := snd ea\<rparr>"
      by (cases ea) (simp add: plan_def Inr)
    then show ?thesis ..
  next
    case (Inr ap)
    then have "snd (plan self specifiers k) = self\<lparr>applied := fst ap\<rparr>"
      by (cases ap) (simp add: plan_def \<open>validate_acyclic self = Inr u\<close>)
    then show ?thesis ..
  qed
qed

text \<open>
  Claim C8. Two successive invocations of \<^verbatim>\<open>plan\<close> on the same planner, with the same
  specifiers, give the same result: the second invocation starts from the planner that
  the first one left, and its outcome does not depend on it.
\<close>
theorem determinism:
  assumes "plan (ApplyPlanner st tg ch) specifiers k = (r1, self1)"
    and "plan self1 specifiers k = (r2, self2)"
  shows "r1 = r2"
proof -
  obtain X where "self1 = (ApplyPlanner st tg ch)\<lparr>applied := X\<rparr>"
    using plan_snd [of "ApplyPlanner st tg ch" specifiers k] assms(1) by auto
  then have "fst (plan self1 specifiers k) = fst (plan (ApplyPlanner st tg ch) specifiers k)"
    by (simp add: plan_applied_irrelevant)
  then show ?thesis using assms by simp
qed

theorem determinism_witness:
  "fst (plan (ApplyPlanner TEST_RESOURCES_2 TEST_RESOURCES_2 {''adp-rpm''}) None 10)
     = Inr [''-database-permission-updater'', ''-adp-config'', ''-adp-rpm'', ''+adp-rpm'',
            ''+database-permission-updater'', ''+adp-config''] \<and>
   fst (plan (snd (plan (ApplyPlanner TEST_RESOURCES_2 TEST_RESOURCES_2 {''adp-rpm''}) None 10)) None 10)
     = Inr [''-database-permission-updater'', ''-adp-config'', ''-adp-rpm'', ''+adp-rpm'',
            ''+database-permission-updater'', ''+adp-config'']"
proof -
  have h: "fst (plan (ApplyPlanner TEST_RESOURCES_2 TEST_RESOURCES_2 {''adp-rpm''}) None 10)
     = Inr [''-database-permission-updater'', ''-adp-config'', ''-adp-rpm'', ''+adp-rpm'',
            ''+database-permission-updater'', ''+adp-config'']"
    by code_simp
  from determinism [OF plan_collapse [OF h] plan_collapse [OF refl]] h show ?thesis by simp
qed

subsection \<open>The cycle check\<close>

lemma compose_edges: "set (g_edges (compose g h)) = set (g_edges g) \<union> set (g_edges h)"
  by (auto simp: compose_def)

lemma compose_nodes: "set (g_nodes (compose g h)) = set (g_nodes g) \<union> set (g_nodes h)"
  by (auto simp: compose_def)

lemma edges_of_set:
  "set (edges_of d) = {(n, x). \<exists>r. (n, r) \<in> set d \<and> (x \<in> set (deps r) \<or> x \<in> set (tools r))}"
  by (force simp: edges_of_def)

lemma composed_edges:
  "set (g_edges (compose (generate_delete_deps_graph st) (generate_tools_deps_graph st)))
     = set (edges_of st)"
  by (auto simp: compose_edges delete_deps_graph_edges tools_deps_graph_edges edges_of_set)

lemma delete_deps_fold_nodes:
  "set (g_nodes g0) \<union> fst ` set st \<subseteq>
   set (g_nodes (foldl (\<lambda>g (nm, r). add_edges_from (add_node g nm) (map (\<lambda>d. (nm, d)) (deps r))) g0 st))"
proof (induction st arbitrary: g0)
  case Nil
  then show ?case by simp
next
  case (Cons a st)
  obtain nm r where a: "a = (nm, r)" by (cases a)
  let ?g = "add_edges_from (add_node g0 nm) (map (\<lambda>d. (nm, d)) (deps r))"
  have "set (g_nodes g0) \<union> {nm} \<subseteq> set (g_nodes ?g)"
    by (auto simp: add_edges_from_nodes add_node_nodes)
  then show ?case
    using Cons.IH [of ?g] unfolding a by auto
qed

lemma delete_deps_graph_nodes: "fst ` set st \<subseteq> set (g_nodes (generate_delete_deps_graph st))"
  using delete_deps_fold_nodes [of DiGraph st] by (simp add: generate_delete_deps_graph_def)

lemma has_cycle_composed:
  "has_cycle (compose (generate_delete_deps_graph st) (generate_tools_deps_graph st))
     = cyclic (edges_of st)"
proof -
  let ?g = "compose (generate_delete_deps_graph st) (generate_tools_deps_graph st)"
  have e: "set (g_edges ?g) = set (edges_of st)" by (rule composed_edges)
  have "x \<in> set (g_nodes ?g)" if "x \<in> fst ` set (edges_of st)" for x
  proof -
    from that have "x \<in> fst ` set st" by (force simp: edges_of_set)
    then show ?thesis using delete_deps_graph_nodes [of st] by (auto simp: compose_nodes)
  qed
  moreover have "x \<in> fst ` set (edges_of st)" if "(x, x) \<in> (set (edges_of st))\<^sup>+" for x
  proof -
    from that obtain y where "(x, y) \<in> set (edges_of st)" by (auto dest: tranclD)
    then show ?thesis by force
  qed
  ultimately have "(\<exists>x \<in> set (g_nodes ?g). (x, x) \<in> (set (edges_of st))\<^sup>+)
      = (\<exists>x \<in> fst ` set (edges_of st). (x, x) \<in> (set (edges_of st))\<^sup>+)"
    by blast
  then show ?thesis
    unfolding has_cycle_def cyclic_def e set_map .
qed

lemma validate_acyclic_ApplyPlanner:
  "validate_acyclic (ApplyPlanner st tg ch)
     = (if cyclic (edges_of st) then Inl ValueError else Inr ())"
  by (simp add: validate_acyclic_def ApplyPlanner_sel has_cycle_composed)

text \<open>
  Claim C6. When the dependencies and tools of the current collection have a directed
  cycle, \<^verbatim>\<open>plan\<close> fails with the error of the cycle check, whatever the target, the
  changed set, the specifiers and the recursion limit are; no sequence is returned and
  the planner is left as it was (not even its set of resolved names is reset). In
  particular this holds when \<open>x\<close> depends on \<open>y\<close> and \<open>y\<close> on \<open>x\<close>.
\<close>
theorem cycle_rejection:
  "(cyclic (edges_of st) \<longrightarrow>
      plan (ApplyPlanner st tg ch) specifiers k = (Inl ValueError, ApplyPlanner st tg ch)) \<and>
   (map_of st x = Some rx \<and> y \<in> set (deps rx) \<and> map_of st y = Some ry \<and> x \<in> set (deps ry) \<longrightarrow>
      plan (ApplyPlanner st tg ch) specifiers k = (Inl ValueError, ApplyPlanner st tg ch))"
proof -
  have 1: "plan (ApplyPlanner st tg ch) specifiers k = (Inl ValueError, ApplyPlanner st tg ch)"
    if "cyclic (edges_of st)"
    using that by (simp add: plan_def validate_acyclic_ApplyPlanner)
  have 2: "cyclic (edges_of st)"
    if "map_of st x = Some rx" "y \<in> set (deps rx)" "map_of st y = Some ry" "x \<in> set (deps ry)"
  proof -
    have "(x, rx) \<in> set st" "(y, ry) \<in> set st"
      using that by (auto dest: map_of_SomeD)
    then have xy: "(x, y) \<in> set (edges_of st)" and yx: "(y, x) \<in> set (edges_of st)"
      using that by (auto simp: edges_of_set)
    then have "(x, x) \<in> (set (edges_of st))\<^sup>+" by (meson trancl.intros)
    moreover have "x \<in> set (map fst (edges_of st))" using xy by force
    ultimately show ?thesis unfolding cyclic_def by blast
  qed
  show ?thesis using 1 2 by blast
qed

text \<open>
  The collection in which \<^verbatim>\<open>x\<close> and \<^verbatim>\<open>y\<close> depend on each other.
\<close>
theorem cycle_rejection_witness:
  "cyclic (edges_of [TR ''x'' [''y''] [], TR ''y'' [''x''] []]) \<and>
   map_of [TR ''x'' [''y''] [], TR ''y'' [''x''] []] ''x'' = Some \<lparr>name = ''x'', deps = [''y''], tools = []\<rparr> \<and>
   ''y'' \<in> set (deps \<lparr>name = ''x'', deps = [''y''], tools = []\<rparr>) \<and>
   map_of [TR ''x'' [''y''] [], TR ''y'' [''x''] []] ''y'' = Some \<lparr>name = ''y'', deps = [''x''], tools = []\<rparr> \<and>
   ''x'' \<in> set (deps \<lparr>name = ''y'', deps = [''x''], tools = []\<rparr>) \<and>
   plan (ApplyPlanner [TR ''x'' [''y''] [], TR ''y'' [''x''] []] [] {}) None 10
     = (Inl ValueError, ApplyPlanner [TR ''x'' [''y''] [], TR ''y'' [''x''] []] [] {})"
proof -
  have c: "cyclic (edges_of [TR ''x'' [''y''] [], TR ''y'' [''x''] []])" by code_simp
  have mx: "map_of [TR ''x'' [''y''] [], TR ''y'' [''x''] []] ''x'' = Some \<lparr>name = ''x'', deps = [''y''], tools = []\<rparr>"
    by (simp add: TR_def)
  have my: "map_of [TR ''x'' [''y''] [], TR ''y'' [''x''] []] ''y'' = Some \<lparr>name = ''y'', deps = [''x''], tools = []\<rparr>"
    by (simp add: TR_def)
  have dx: "''y'' \<in> set (deps \<lparr>name = ''x'', deps = [''y''], tools = []\<rparr>)" by simp
  have dy: "''x'' \<in> set (deps \<lparr>name = ''y'', deps = [''x''], tools = []\<rparr>)" by simp
  from cycle_rejection [of "[TR ''x'' [''y''] [], TR ''y'' [''x''] []]" "[]" "{}" None 10
      "''x''" "\<lparr>name = ''x'', deps = [''y''], tools = []\<rparr>" "''y''"
      "\<lparr>name = ''y'', deps = [''x''], tools = []\<rparr>"] c mx my dx dy
  show ?thesis by blast
qed

subsection \<open>A changed name that does not exist\<close>




lemma contains_lookup: "contains d m \<Longrightarrow> \<exists>res. map_of d m = Some res"
  unfolding contains_def using map_of_eq_None_iff [of d m] by (cases "map_of d m") auto








subsection \<open>The scenario of a changed tool\<close>

lemma tool_scenario_graphs:
  "generate_tools_deps_graph tool_scenario
     = \<lparr>g_nodes = [''userB'', ''toolA''], g_edges = [(''userB'', ''toolA'')]\<rparr>"
  "generate_delete_deps_graph tool_scenario
     = \<lparr>g_nodes = [''toolA'', ''userB''], g_edges = []\<rparr>"
  by code_simp+

lemma tool_scenario_acyclic: "\<not> cyclic (edges_of tool_scenario)"
  by code_simp

lemma tool_scenario_working_set:
  "working_set (ApplyPlanner tool_scenario tool_scenario ch) None = [''toolA'', ''userB'']"
  by (simp add: working_set_def ApplyPlanner_sel tool_scenario_def TR_def)

lemma tool_scenario_contains:
  "contains tool_scenario ''toolA''" "contains tool_scenario ''userB''"
  by (simp_all add: contains_def tool_scenario_def TR_def)

lemma tool_scenario_lookup:
  "map_of tool_scenario ''toolA'' = Some \<lparr>name = ''toolA'', deps = [], tools = []\<rparr>"
  "map_of tool_scenario ''userB'' = Some \<lparr>name = ''userB'', deps = [], tools = [''toolA'']\<rparr>"
  by (simp_all add: tool_scenario_def TR_def)

text \<open>
  The plan of the scenario is not the sequence that deletes and creates the user of the tool as well (with the default recursion limit of Python).
\<close>
theorem changed_tool_scenario_counterexample:
  "fst (plan (ApplyPlanner tool_scenario tool_scenario {''toolA''}) None 1000)
     \<noteq> Inr [Delete ''userB'', Delete ''toolA'', Create ''toolA'', Create ''userB'']"
  by code_simp

text \<open>
  Claim C1, as amended. With current = target = \<^verbatim>\<open>toolA\<close> and \<^verbatim>\<open>userB\<close> (which uses
  \<^verbatim>\<open>toolA\<close> as a tool) and \<^verbatim>\<open>toolA\<close> changed, a full plan is exactly
  \<open>Delete toolA, Create toolA\<close>, for every recursion limit of at least three calls: the
  user of the changed tool is resolved, but it is unchanged and present in both
  collections, so that it is neither deleted nor created.
\<close>
theorem changed_tool_scenario:
  "fst (plan (ApplyPlanner tool_scenario tool_scenario {''toolA''}) None (Suc (Suc (Suc k))))
     = Inr [Delete ''toolA'', Create ''toolA'']"
proof -
  let ?P = "ApplyPlanner tool_scenario tool_scenario {''toolA''}"
  note ev = ApplyPlanner_sel tool_scenario_graphs tool_scenario_contains tool_scenario_lookup
    is_changed_def has_node_def predecessors_def
  have u: "apply_resource (Suc k) ?P ''userB'' ({''toolA''}, []) = Inr ({''userB'', ''toolA''}, [])"
    by (simp add: ev)
  have d: "plan_delete (Suc (Suc k)) ?P ''toolA'' ({''toolA''}, [])
             = Inr ({''userB'', ''toolA''}, [''-toolA''])"
    by (simp add: ev)
  have c: "plan_create (Suc (Suc k)) ?P ''toolA'' ({''userB'', ''toolA''}, [''-toolA''])
             = Inr ({''userB'', ''toolA''}, [''-toolA'', ''+toolA''])"
    by (simp add: ev)
  have a: "apply_resource (Suc (Suc (Suc k))) ?P ''toolA'' ({}, [])
             = Inr ({''userB'', ''toolA''}, [''-toolA'', ''+toolA''])"
    unfolding apply_resource.simps d c by (simp add: ev)
  have b: "apply_resource (Suc (Suc (Suc k))) ?P ''userB'' ({''userB'', ''toolA''}, [''-toolA'', ''+toolA''])
             = Inr ({''userB'', ''toolA''}, [''-toolA'', ''+toolA''])"
    by simp
  have fe: "for_each (apply_resource (Suc (Suc (Suc k))) ?P) [''toolA'', ''userB''] ({}, [])
          = Inr ({''userB'', ''toolA''}, [''-toolA'', ''+toolA''])"
    by (simp only: for_each.simps a b sum.case)
  have bf: "dedup {} (backfill (map fst tool_scenario) [''-toolA'', ''+toolA''])
          = [''-toolA'', ''+toolA'']"
    by (simp add: tool_scenario_def TR_def)
  have "fst (plan ?P None (Suc (Suc (Suc k))))
          = Inr (dedup {} (backfill (map fst (target ?P)) [''-toolA'', ''+toolA'']))"
    unfolding plan_def validate_acyclic_ApplyPlanner tool_scenario_working_set fe
    using tool_scenario_acyclic by simp
  then show ?thesis
    by (simp add: ApplyPlanner_sel bf Create_def Delete_def)
qed

subsection \<open>The plan only grows\<close>

lemma for_each_extends:
  assumes "for_each body xs s = Inr s'"
    and "\<And>x t t'. body x t = Inr t' \<Longrightarrow> \<exists>q. snd t' = snd t @ q"
  shows "\<exists>q. snd s' = snd s @ q"
proof (rule for_each_invariant [where I = "\<lambda>t. \<exists>q. snd t = snd s @ q", OF assms(1)])
  show "\<exists>q. snd s = snd s @ q" by simp
next
  fix x t t'
  assume "\<exists>q. snd t = snd s @ q" and "body x t = Inr t'"
  then show "\<exists>q. snd t' = snd s @ q" using assms(2) [of x t t'] by auto
qed

lemma planner_extends:
  "(\<forall>m s s'. apply_resource k self m s = Inr s' \<longrightarrow> (\<exists>q. snd s' = snd s @ q)) \<and>
   (\<forall>m s s'. plan_create k self m s = Inr s' \<longrightarrow> (\<exists>q. snd s' = snd s @ q)) \<and>
   (\<forall>m s s'. plan_delete k self m s = Inr s' \<longrightarrow> (\<exists>q. snd s' = snd s @ q))"
proof (induction k)
  case 0
  show ?case by auto
next
  case (Suc k)
  have IHa: "\<And>m s s'. apply_resource k self m s = Inr s' \<Longrightarrow> \<exists>q. snd s' = snd s @ q"
    using Suc by blast
  have IHc: "\<And>m s s'. plan_create k self m s = Inr s' \<Longrightarrow> \<exists>q. snd s' = snd s @ q"
    using Suc by blast
  have IHd: "\<And>m s s'. plan_delete k self m s = Inr s' \<Longrightarrow> \<exists>q. snd s' = snd s @ q"
    using Suc by blast
  have A: "\<exists>q. snd s' = snd s @ q" if run: "apply_resource (Suc k) self m s = Inr s'" for m s s'
  proof -
    obtain B p where s: "s = (B, p)" by (cases s)
    note c = apply_resource_Suc_Inr [OF run [unfolded s]]
    consider (skip) "s' = (B, p)" | (keep) "s' = (insert m B, p)"
      | (del) "plan_delete k self m (insert m B, p) = Inr s'"
      | (repl) s1 where "plan_delete k self m (insert m B, p) = Inr s1" "plan_create k self m s1 = Inr s'"
      | (new) "plan_create k self m (insert m B, p) = Inr s'"
      using c by blast
    then show ?thesis
    proof cases
      case skip then show ?thesis using s by simp
    next
      case keep then show ?thesis using s by simp
    next
      case del then show ?thesis using IHd [OF del] s by simp
    next
      case repl
      from IHd [OF repl(1)] obtain q1 where "snd s1 = p @ q1" by auto
      moreover from IHc [OF repl(2)] obtain q2 where "snd s' = snd s1 @ q2" by auto
      ultimately show ?thesis using s by simp
    next
      case new then show ?thesis using IHc [OF new] s by simp
    qed
  qed
  have C: "\<exists>q. snd s' = snd s @ q" if run: "plan_create (Suc k) self m s = Inr s'" for m s s'
  proof -
    obtain B p where s: "s = (B, p)" by (cases s)
    from run [unfolded s] obtain r s1 A2 p2 where
      "contains (target self) m \<or> contains (state self) m" and
      "map_of (target self) m = Some r \<or>
         (map_of (target self) m = None \<and> map_of (state self) m = Some r)" and
      l1: "for_each (apply_resource k self) (tools r) (B, p) = Inr s1" and
      l2: "for_each (apply_resource k self) (deps r) s1 = Inr (A2, p2)" and
      s': "s' = (A2, p2 @ [Create m])"
      by (rule plan_create_Suc_Inr)
    have "\<exists>q. snd s1 = snd (B, p) @ q"
      by (rule for_each_extends [OF l1]) (erule IHa)
    then obtain q1 where "snd s1 = p @ q1" by auto
    moreover have "\<exists>q. snd (A2, p2) = snd s1 @ q"
      by (rule for_each_extends [OF l2]) (erule IHa)
    then obtain q2 where "p2 = snd s1 @ q2" by auto
    ultimately show ?thesis using s s' by simp
  qed
  have D: "\<exists>q. snd s' = snd s @ q" if run: "plan_delete (Suc k) self m s = Inr s'" for m s s'
  proof -
    obtain B p where s: "s = (B, p)" by (cases s)
    from run [unfolded s] obtain users dependees r A1 p1 A2 p2 A3 p3 where
      "contains (state self) m" and
      l1: "for_each (apply_resource k self) users (B, p) = Inr (A1, p1)" and
      "predecessors (delete_deps_graph self) m = Inr dependees" and
      l2: "for_each (plan_delete k self) dependees (A1, p1) = Inr (A2, p2)" and
      "map_of (state self) m = Some r" and
      l3: "for_each (\<lambda>tool (B, q). apply_resource k self tool (B - {m}, q)) (tools r) (A2, p2) = Inr (A3, p3)" and
      s': "s' = (A3, p3 @ [Delete m])"
      by (rule plan_delete_Suc_Inr)
    have "\<exists>q. snd (A1, p1) = snd (B, p) @ q"
      by (rule for_each_extends [OF l1]) (erule IHa)
    then obtain q1 where 1: "p1 = p @ q1" by auto
    have "\<exists>q. snd (A2, p2) = snd (A1, p1) @ q"
      by (rule for_each_extends [OF l2]) (erule IHd)
    then obtain q2 where 2: "p2 = p1 @ q2" by auto
    have body: "\<exists>q. snd t' = snd t @ q"
      if b: "(\<lambda>tool (B, q). apply_resource k self tool (B - {m}, q)) x t = Inr t'" for x t t'
    proof -
      obtain E q where t: "t = (E, q)" by (cases t)
      from b have "apply_resource k self x (E - {m}, q) = Inr t'" by (simp add: t)
      from IHa [OF this] show ?thesis by (simp add: t)
    qed
    have "\<exists>q. snd (A3, p3) = snd (A2, p2) @ q"
      by (rule for_each_extends [OF l3]) (erule body)
    then obtain q3 where "p3 = p2 @ q3" by auto
    then show ?thesis using 1 2 s s' by simp
  qed
  show ?case using A C D by blast
qed

lemma apply_resource_extends:
  "apply_resource k self m s = Inr s' \<Longrightarrow> \<exists>q. snd s' = snd s @ q"
  using planner_extends [of k self] by blast

lemma plan_create_extends:
  "plan_create k self m s = Inr s' \<Longrightarrow> \<exists>q. snd s' = snd s @ q"
  using planner_extends [of k self] by blast

lemma plan_delete_appends:
  assumes "plan_delete k self m s = Inr s'"
  shows "Delete m \<in> set (snd s')"
proof (cases k)
  case 0
  with assms show ?thesis by (cases s) simp
next
  case (Suc j)
  obtain B p where s: "s = (B, p)" by (cases s)
  from assms [unfolded Suc s] obtain users dependees r A1 p1 A2 p2 A3 p3 where
    "contains (state self) m" and
    "for_each (apply_resource j self) users (B, p) = Inr (A1, p1)" and
    "predecessors (delete_deps_graph self) m = Inr dependees" and
    "for_each (plan_delete j self) dependees (A1, p1) = Inr (A2, p2)" and
    "map_of (state self) m = Some r" and
    "for_each (\<lambda>tool (B, q). apply_resource j self tool (B - {m}, q)) (tools r) (A2, p2) = Inr (A3, p3)" and
    s': "s' = (A3, p3 @ [Delete m])"
    by (rule plan_delete_Suc_Inr)
  then show ?thesis by simp
qed

subsection \<open>Creation order in a run that deletes nothing\<close>

lemma comes_first_absent: "y \<notin> set p \<Longrightarrow> comes_first x y p"
  by (induction p) auto

lemma comes_first_same: "comes_first x x p"
  by (induction p) auto

lemma backfill_no_deletes: "\<forall>n. Delete n \<notin> set p \<Longrightarrow> backfill ts p = p"
  by (induction ts arbitrary: p) (auto simp: Delete_def)

lemma tools_known_mono: "tools_known tg A p \<Longrightarrow> A \<subseteq> B \<Longrightarrow> tools_known tg B p"
  unfolding tools_known_def by blast

lemma target_edge:
  assumes "map_of tg m = Some res" and "x \<in> set (deps res) \<or> x \<in> set (tools res)"
  shows "(m, x) \<in> set (edges_of tg)"
  using assms by (auto simp: edges_of_set dest: map_of_SomeD)

lemma acyclic_target:
  assumes "\<not> cyclic (edges_of tg)"
  shows "(m, m) \<notin> (set (edges_of tg))\<^sup>+"
proof
  assume c: "(m, m) \<in> (set (edges_of tg))\<^sup>+"
  then obtain y where "(m, y) \<in> set (edges_of tg)" by (auto dest: tranclD)
  then have "m \<in> set (map fst (edges_of tg))" by force
  with c assms show False unfolding cyclic_def by blast
qed

text \<open>A loop over names that resolves each of them, given the property of one resolution.\<close>

lemma creation_loop:
  assumes step: "\<And>m A p A' p'. apply_resource k self m (A, p) = Inr (A', p') \<Longrightarrow>
      \<forall>n. Delete n \<notin> set p' \<Longrightarrow> tools_known tg A p \<Longrightarrow> tools_first tg p \<Longrightarrow>
      A \<subseteq> A' \<and> m \<in> A' \<and>
      (\<exists>q. p' = p @ q \<and> (\<forall>r. Create r \<in> set q \<longrightarrow> (m, r) \<in> (set (edges_of tg))\<^sup>*)) \<and>
      tools_known tg A' p' \<and> tools_first tg p'"
    and run: "for_each (apply_resource k self) xs (A, p) = Inr (A', p')"
    and nodel: "\<forall>n. Delete n \<notin> set p'"
    and known: "tools_known tg A p" and first: "tools_first tg p"
  shows "A \<subseteq> A' \<and> set xs \<subseteq> A' \<and>
      (\<exists>q. p' = p @ q \<and>
           (\<forall>r. Create r \<in> set q \<longrightarrow> (\<exists>x \<in> set xs. (x, r) \<in> (set (edges_of tg))\<^sup>*))) \<and>
      tools_known tg A' p' \<and> tools_first tg p'"
  using run known first
proof (induction xs arbitrary: A p)
  case Nil
  then show ?case by simp
next
  case (Cons x xs)
  from Cons.prems(1) obtain t where t: "apply_resource k self x (A, p) = Inr t"
    and rest: "for_each (apply_resource k self) xs t = Inr (A', p')"
    by (auto split: sum.splits)
  obtain A1 p1 where t1: "t = (A1, p1)" by (cases t)
  have "\<exists>q. snd (A', p') = snd t @ q"
    by (rule for_each_extends [OF rest]) (erule apply_resource_extends)
  then obtain q' where "p' = p1 @ q'"
    by (auto simp: t1)
  with nodel have nd1: "\<forall>n. Delete n \<notin> set p1" by auto
  from step [OF t [unfolded t1] nd1 Cons.prems(2,3)] obtain q1 where
    1: "A \<subseteq> A1" "x \<in> A1" "p1 = p @ q1"
       "\<forall>r. Create r \<in> set q1 \<longrightarrow> (x, r) \<in> (set (edges_of tg))\<^sup>*"
       "tools_known tg A1 p1" "tools_first tg p1"
    by blast
  from Cons.IH [OF rest [unfolded t1] 1(5,6)] obtain q2 where
    2: "A1 \<subseteq> A'" "set xs \<subseteq> A'" "p' = p1 @ q2"
       "\<forall>r. Create r \<in> set q2 \<longrightarrow> (\<exists>y \<in> set xs. (y, r) \<in> (set (edges_of tg))\<^sup>*)"
       "tools_known tg A' p'" "tools_first tg p'"
    by blast
  have "p' = p @ (q1 @ q2)" using 1(3) 2(3) by simp
  moreover have "\<forall>r. Create r \<in> set (q1 @ q2) \<longrightarrow>
      (\<exists>y \<in> set (x # xs). (y, r) \<in> (set (edges_of tg))\<^sup>*)"
    using 1(4) 2(4) by auto
  ultimately have "\<exists>q. p' = p @ q \<and>
      (\<forall>r. Create r \<in> set q \<longrightarrow> (\<exists>y \<in> set (x # xs). (y, r) \<in> (set (edges_of tg))\<^sup>*))"
    by blast
  then show ?case using 1(1,2) 2(1,2,5,6) by auto
qed

lemma Create_inject: "Create a = Create b \<longleftrightarrow> a = b"
  by (simp add: Create_def)

lemma creation_order:
  assumes acyc: "\<not> cyclic (edges_of (target self))"
  shows
  "(\<forall>m A p A' p'. apply_resource k self m (A, p) = Inr (A', p') \<longrightarrow>
      (\<forall>n. Delete n \<notin> set p') \<longrightarrow> tools_known (target self) A p \<longrightarrow>
      tools_first (target self) p \<longrightarrow>
      A \<subseteq> A' \<and> m \<in> A' \<and>
      (\<exists>q. p' = p @ q \<and>
           (\<forall>r. Create r \<in> set q \<longrightarrow> (m, r) \<in> (set (edges_of (target self)))\<^sup>*)) \<and>
      tools_known (target self) A' p' \<and> tools_first (target self) p') \<and>
   (\<forall>m A p A' p'. plan_create k self m (A, p) = Inr (A', p') \<longrightarrow>
      (\<forall>n. Delete n \<notin> set p') \<longrightarrow> contains (target self) m \<longrightarrow>
      tools_known (target self) A p \<longrightarrow> tools_first (target self) p \<longrightarrow>
      (\<forall>r res. Create r \<in> set p \<longrightarrow> map_of (target self) r = Some res \<longrightarrow>
                m \<in> set (tools res) \<longrightarrow> r = m) \<longrightarrow>
      A \<subseteq> A' \<and>
      (\<exists>q. p' = p @ q @ [Create m] \<and>
           (\<forall>r. Create r \<in> set q \<longrightarrow> (m, r) \<in> (set (edges_of (target self)))\<^sup>+)) \<and>
      tools_known (target self) A' p' \<and> tools_first (target self) p')"
proof (induction k)
  case 0
  show ?case by simp
next
  case (Suc k)
  let ?tg = "target self"
  let ?E = "set (edges_of ?tg)"
  have IHa: "\<And>m A p A' p'. apply_resource k self m (A, p) = Inr (A', p') \<Longrightarrow>
      \<forall>n. Delete n \<notin> set p' \<Longrightarrow> tools_known ?tg A p \<Longrightarrow> tools_first ?tg p \<Longrightarrow>
      A \<subseteq> A' \<and> m \<in> A' \<and>
      (\<exists>q. p' = p @ q \<and> (\<forall>r. Create r \<in> set q \<longrightarrow> (m, r) \<in> ?E\<^sup>*)) \<and>
      tools_known ?tg A' p' \<and> tools_first ?tg p'"
    using Suc by blast
  have IHc: "\<And>m A p A' p'. plan_create k self m (A, p) = Inr (A', p') \<Longrightarrow>
      \<forall>n. Delete n \<notin> set p' \<Longrightarrow> contains ?tg m \<Longrightarrow>
      tools_known ?tg A p \<Longrightarrow> tools_first ?tg p \<Longrightarrow>
      \<forall>r res. Create r \<in> set p \<longrightarrow> map_of ?tg r = Some res \<longrightarrow> m \<in> set (tools res) \<longrightarrow> r = m \<Longrightarrow>
      A \<subseteq> A' \<and>
      (\<exists>q. p' = p @ q @ [Create m] \<and> (\<forall>r. Create r \<in> set q \<longrightarrow> (m, r) \<in> ?E\<^sup>+)) \<and>
      tools_known ?tg A' p' \<and> tools_first ?tg p'"
    using Suc by blast
  have A: "A \<subseteq> A' \<and> m \<in> A' \<and>
      (\<exists>q. p' = p @ q \<and> (\<forall>r. Create r \<in> set q \<longrightarrow> (m, r) \<in> ?E\<^sup>*)) \<and>
      tools_known ?tg A' p' \<and> tools_first ?tg p'"
    if run: "apply_resource (Suc k) self m (A, p) = Inr (A', p')"
      and nodel: "\<forall>n. Delete n \<notin> set p'"
      and known: "tools_known ?tg A p" and first: "tools_first ?tg p" for m A p A' p'
  proof -
    note c = apply_resource_Suc_Inr [OF run]
    consider (skip) "m \<in> A" "(A', p') = (A, p)" | (keep) "(A', p') = (insert m A, p)"
      | (del) "plan_delete k self m (insert m A, p) = Inr (A', p')"
      | (repl) s1 where "plan_delete k self m (insert m A, p) = Inr s1"
          "plan_create k self m s1 = Inr (A', p')"
      | (new) "m \<notin> A" "contains ?tg m" "plan_create k self m (insert m A, p) = Inr (A', p')"
      using c by blast
    then show ?thesis
    proof cases
      case skip
      then show ?thesis using known first by auto
    next
      case keep
      then have "tools_known ?tg A' p'"
        using tools_known_mono [OF known, of "insert m A"] by auto
      then show ?thesis using keep first by auto
    next
      case del
      then have "Delete m \<in> set p'" using plan_delete_appends [OF del] by simp
      then show ?thesis using nodel by blast
    next
      case repl
      have "Delete m \<in> set (snd s1)" using plan_delete_appends [OF repl(1)] .
      moreover obtain q where "p' = snd s1 @ q"
        using plan_create_extends [OF repl(2)] by auto
      ultimately have "Delete m \<in> set p'" by simp
      then show ?thesis using nodel by blast
    next
      case new
      have k1: "tools_known ?tg (insert m A) p"
        using tools_known_mono [OF known, of "insert m A"] by auto
      have fresh: "\<forall>r res. Create r \<in> set p \<longrightarrow> map_of ?tg r = Some res \<longrightarrow>
          m \<in> set (tools res) \<longrightarrow> r = m"
        using known new(1) unfolding tools_known_def by blast
      from IHc [OF new(3) nodel new(2) k1 first fresh] obtain q where
        1: "insert m A \<subseteq> A'" "p' = p @ q @ [Create m]"
           "\<forall>r. Create r \<in> set q \<longrightarrow> (m, r) \<in> ?E\<^sup>+"
           "tools_known ?tg A' p'" "tools_first ?tg p'"
        by blast
      have "\<forall>r. Create r \<in> set (q @ [Create m]) \<longrightarrow> (m, r) \<in> ?E\<^sup>*"
        using 1(3) by (auto simp: Create_inject)
      moreover have "p' = p @ (q @ [Create m])" using 1(2) by simp
      ultimately have "\<exists>q'. p' = p @ q' \<and> (\<forall>r. Create r \<in> set q' \<longrightarrow> (m, r) \<in> ?E\<^sup>*)"
        by blast
      then show ?thesis using 1(1,4,5) by auto
    qed
  qed
  have C: "A \<subseteq> A' \<and>
      (\<exists>q. p' = p @ q @ [Create m] \<and> (\<forall>r. Create r \<in> set q \<longrightarrow> (m, r) \<in> ?E\<^sup>+)) \<and>
      tools_known ?tg A' p' \<and> tools_first ?tg p'"
    if run: "plan_create (Suc k) self m (A, p) = Inr (A', p')"
      and nodel: "\<forall>n. Delete n \<notin> set p'" and ct: "contains ?tg m"
      and known: "tools_known ?tg A p" and first: "tools_first ?tg p"
      and fresh: "\<forall>r res. Create r \<in> set p \<longrightarrow> map_of ?tg r = Some res \<longrightarrow>
          m \<in> set (tools res) \<longrightarrow> r = m" for m A p A' p'
  proof -
    from run obtain res s1 A2 p2 where
      "contains ?tg m \<or> contains (state self) m" and
      lk: "map_of ?tg m = Some res \<or> (map_of ?tg m = None \<and> map_of (state self) m = Some res)" and
      l1: "for_each (apply_resource k self) (tools res) (A, p) = Inr s1" and
      l2: "for_each (apply_resource k self) (deps res) s1 = Inr (A2, p2)" and
      s': "(A', p') = (A2, p2 @ [Create m])"
      by (rule plan_create_Suc_Inr)
    have res: "map_of ?tg m = Some res"
      using lk contains_lookup [OF ct] by auto
    obtain A1 p1 where s1: "s1 = (A1, p1)" by (cases s1)
    have p': "p' = p2 @ [Create m]" and A': "A' = A2" using s' by simp_all
    have nd2: "\<forall>n. Delete n \<notin> set p2" using nodel p' by simp
    have "\<exists>q. snd (A2, p2) = snd s1 @ q"
      by (rule for_each_extends [OF l2]) (erule apply_resource_extends)
    then obtain q' where "p2 = p1 @ q'" by (auto simp: s1)
    then have nd1: "\<forall>n. Delete n \<notin> set p1" using nd2 by simp
    from creation_loop [OF IHa l1 [unfolded s1] nd1 known first] obtain q1 where
      1: "A \<subseteq> A1" "set (tools res) \<subseteq> A1" "p1 = p @ q1"
         "\<forall>r. Create r \<in> set q1 \<longrightarrow> (\<exists>x \<in> set (tools res). (x, r) \<in> ?E\<^sup>*)"
         "tools_known ?tg A1 p1" "tools_first ?tg p1"
      by blast
    from creation_loop [OF IHa l2 [unfolded s1] nd2 1(5,6)] obtain q2 where
      2: "A1 \<subseteq> A2" "p2 = p1 @ q2"
         "\<forall>r. Create r \<in> set q2 \<longrightarrow> (\<exists>x \<in> set (deps res). (x, r) \<in> ?E\<^sup>*)"
         "tools_known ?tg A2 p2" "tools_first ?tg p2"
      by blast
    have reach: "(m, r) \<in> ?E\<^sup>+" if "Create r \<in> set (q1 @ q2)" for r
    proof -
      from that 1(4) 2(3) obtain x where
        x: "x \<in> set (deps res) \<or> x \<in> set (tools res)" and xr: "(x, r) \<in> ?E\<^sup>*"
        by auto
      have "(m, x) \<in> ?E" using target_edge [OF res x] .
      then show ?thesis using xr by (rule rtrancl_into_trancl2)
    qed
    have known': "tools_known ?tg A2 (p2 @ [Create m])"
      unfolding tools_known_def
    proof (intro allI impI)
      fix r0 res0 t
      assume in_p: "Create r0 \<in> set (p2 @ [Create m])"
        and lk0: "map_of ?tg r0 = Some res0" and t: "t \<in> set (tools res0)"
      show "t \<in> A2"
      proof (cases "Create r0 \<in> set p2")
        case True
        then show ?thesis using 2(4) lk0 t unfolding tools_known_def by blast
      next
        case False
        then have "r0 = m" using in_p by (simp add: Create_inject)
        then have "res0 = res" using lk0 res by simp
        then show ?thesis using t 1(2) 2(1) by auto
      qed
    qed
    have first': "tools_first ?tg (p2 @ [Create m])"
      unfolding tools_first_def
    proof (intro allI impI)
      fix r0 res0 t
      assume lk0: "map_of ?tg r0 = Some res0" and t: "t \<in> set (tools res0)"
        and in_p: "Create t \<in> set (p2 @ [Create m])"
      show "comes_first (Create t) (Create r0) (p2 @ [Create m])"
      proof (cases "Create t \<in> set p2")
        case True
        then have "comes_first (Create t) (Create r0) p2"
          using 2(5) lk0 t unfolding tools_first_def by blast
        then show ?thesis using True by (simp add: comes_first_append)
      next
        case False
        then have tm: "t = m" using in_p by (simp add: Create_inject)
        have "comes_first (Create m) (Create r0) p2"
        proof (cases "r0 = m")
          case True
          then show ?thesis by (simp add: comes_first_same)
        next
          case r0: False
          have "Create r0 \<notin> set p2"
          proof
            assume "Create r0 \<in> set p2"
            then consider "Create r0 \<in> set p" | "Create r0 \<in> set (q1 @ q2)"
              using 1(3) 2(2) by auto
            then show False
            proof cases
              case 1
              then show False using fresh lk0 t tm r0 by blast
            next
              case 2
              then have "(m, r0) \<in> ?E\<^sup>+" by (rule reach)
              moreover have "(r0, m) \<in> ?E"
                using target_edge [OF lk0, of m] t tm by simp
              ultimately have "(m, m) \<in> ?E\<^sup>+" by (rule trancl_into_trancl)
              then show False using acyclic_target [OF acyc] by blast
            qed
          qed
          then show ?thesis by (rule comes_first_absent)
        qed
        then show ?thesis using tm by (simp add: comes_first_append)
      qed
    qed
    have "p' = p @ (q1 @ q2) @ [Create m]" using p' 1(3) 2(2) by simp
    then have "\<exists>q. p' = p @ q @ [Create m] \<and> (\<forall>r. Create r \<in> set q \<longrightarrow> (m, r) \<in> ?E\<^sup>+)"
      using reach by blast
    moreover have "A \<subseteq> A'" using 1(1) 2(1) A' by auto
    ultimately show ?thesis using known' first' p' A' by simp
  qed
  show ?case using A C by blast
qed

text \<open>
  Claim C5 says that a tool is created before the resource that lists it when both are
  newly created. The code does not keep this order on the input \<open>ordering_state\<close>,
  \<open>ordering_target\<close> with \<^verbatim>\<open>c\<close> and \<^verbatim>\<open>d\<close> changed. Both collections are acyclic,
  \<^verbatim>\<open>a\<close> and \<^verbatim>\<open>b\<close> are new and unchanged, \<^verbatim>\<open>b\<close> lists the tool \<^verbatim>\<open>a\<close>, and neither
  is deleted; yet the plan creates \<^verbatim>\<open>b\<close> at position 1 and \<^verbatim>\<open>a\<close> at position 5. The
  creation of \<^verbatim>\<open>b\<close> does resolve its tools first, but the resolution returns at once for
  \<^verbatim>\<open>a\<close>, which is marked as resolved while its own creation is still under way.
\<close>
theorem tools_precede_users_violated:
  "fst (plan (ApplyPlanner ordering_state ordering_target {''c'', ''d''}) None 1000)
     = Inr [''-d'', ''+b'', ''+d'', ''-c'', ''+c'', ''+a''] \<and>
   map_of ordering_target ''b'' = Some \<lparr>name = ''b'', deps = [], tools = [''a'']\<rparr> \<and>
   occurs_at [''-d'', ''+b'', ''+d'', ''-c'', ''+c'', ''+a''] 1 (Create ''b'') \<and>
   occurs_at [''-d'', ''+b'', ''+d'', ''-c'', ''+c'', ''+a''] 5 (Create ''a'') \<and>
   Delete ''a'' \<notin> set [''-d'', ''+b'', ''+d'', ''-c'', ''+c'', ''+a''] \<and>
   Delete ''b'' \<notin> set [''-d'', ''+b'', ''+d'', ''-c'', ''+c'', ''+a''] \<and>
   \<not> contains ordering_state ''a'' \<and> \<not> contains ordering_state ''b'' \<and>
   ''a'' \<notin> {''c'', ''d''} \<and> ''b'' \<notin> {''c'', ''d''} \<and>
   \<not> cyclic (edges_of ordering_state) \<and> \<not> cyclic (edges_of ordering_target)"
proof -
  have "fst (plan (ApplyPlanner ordering_state ordering_target {''c'', ''d''}) None 1000)
     = Inr [''-d'', ''+b'', ''+d'', ''-c'', ''+c'', ''+a'']"
    by code_simp
  moreover have "map_of ordering_target ''b'' = Some \<lparr>name = ''b'', deps = [], tools = [''a'']\<rparr>"
    by (simp add: ordering_target_def TR_def)
  moreover have "occurs_at [''-d'', ''+b'', ''+d'', ''-c'', ''+c'', ''+a''] 5 (Create ''a'')"
    "occurs_at [''-d'', ''+b'', ''+d'', ''-c'', ''+c'', ''+a''] 1 (Create ''b'')"
    by code_simp+
  moreover have "Delete ''a'' \<notin> set [''-d'', ''+b'', ''+d'', ''-c'', ''+c'', ''+a'']"
    "Delete ''b'' \<notin> set [''-d'', ''+b'', ''+d'', ''-c'', ''+c'', ''+a'']"
    by (simp_all add: Delete_def)
  moreover have "\<not> contains ordering_state ''a''" "\<not> contains ordering_state ''b''"
    by (simp_all add: contains_def ordering_state_def TR_def)
  moreover have "\<not> cyclic (edges_of ordering_state)" "\<not> cyclic (edges_of ordering_target)"
    by code_simp+
  ultimately show ?thesis by simp
qed

text \<open>
  Where the order does hold: in a successful run whose output deletes nothing, on a
  target without a cycle, the planner is a depth-first traversal of the target and a
  tool is created before every resource that lists it.
\<close>

lemma tools_first_without_deletes:
  assumes "plan (ApplyPlanner st tg ch) specifiers k = (Inr out, self')"
    and "\<forall>n. Delete n \<notin> set out" and "\<not> cyclic (edges_of tg)"
    and "map_of tg r = Some res" and "t \<in> set (tools res)"
    and "occurs_at out i (Create t)" and "occurs_at out j (Create r)"
  shows "i < j"
proof -
  let ?P = "ApplyPlanner st tg ch"
  have tg: "target ?P = tg" by (simp add: ApplyPlanner_sel)
  from assms(1) obtain A p where
    "validate_acyclic ?P = Inr ()" and
    run: "for_each (apply_resource k ?P) (working_set ?P specifiers) ({}, []) = Inr (A, p)" and
    out: "out = dedup {} (backfill (map fst (target ?P)) p)" and
    "self' = ?P\<lparr>applied := A\<rparr>"
    by (rule plan_Inr)
  have "set p \<subseteq> set out"
    unfolding out using backfill_subset [of p] by (simp add: set_dedup)
  then have nd: "\<forall>n. Delete n \<notin> set p" using assms(2) by blast
  then have out': "out = dedup {} p"
    unfolding out by (simp add: backfill_no_deletes)
  have step: "\<And>m A p A' p'. apply_resource k ?P m (A, p) = Inr (A', p') \<Longrightarrow>
      \<forall>n. Delete n \<notin> set p' \<Longrightarrow> tools_known tg A p \<Longrightarrow> tools_first tg p \<Longrightarrow>
      A \<subseteq> A' \<and> m \<in> A' \<and>
      (\<exists>q. p' = p @ q \<and> (\<forall>r. Create r \<in> set q \<longrightarrow> (m, r) \<in> (set (edges_of tg))\<^sup>*)) \<and>
      tools_known tg A' p' \<and> tools_first tg p'"
    using creation_order [of ?P k] assms(3) unfolding tg by blast
  have "tools_known tg {} []" "tools_first tg []"
    by (simp_all add: tools_known_def tools_first_def)
  from creation_loop [OF step run nd this] have "tools_first tg p" by blast
  moreover have "Create t \<in> set out"
    using assms(6) nth_mem [of i out] by (auto simp: occurs_at_def)
  then have "Create t \<in> set p"
    by (simp add: out' set_dedup)
  ultimately have "comes_first (Create t) (Create r) p"
    using assms(4,5) unfolding tools_first_def by blast
  then have cf: "comes_first (Create t) (Create r) out"
    unfolding out' by (simp add: comes_first_dedup)
  have "t \<noteq> r"
  proof
    assume "t = r"
    then have "(r, r) \<in> set (edges_of tg)" using target_edge [OF assms(4), of r] assms(5) by simp
    then have "(r, r) \<in> (set (edges_of tg))\<^sup>+" by (rule r_into_trancl)
    then show False using acyclic_target [OF assms(3)] by blast
  qed
  then have "Create t \<noteq> Create r" by (simp add: Create_inject)
  moreover have "distinct out" unfolding out' by (rule distinct_dedup)
  ultimately show ?thesis
    using comes_first_nth [OF cf] assms(6,7) by (simp add: occurs_at_def)
qed

end
